theory Spec2Isabelle
  imports Main "HOL-Library.Word"
begin

section \<open>Basic types\<close>

text \<open>
  Go's \<open>uint64\<close> is a 64-bit word: \<open>+\<close> and \<open>-\<close> wrap around, comparisons are
  unsigned.  Go's \<open>int\<close> (status codes, \<open>RangeSize\<close>, \<open>MaxAttempts\<close>) is modelled as
  a HOL integer; the conversion \<open>uint64(x)\<close> is \<open>word_of_int\<close>.  Go strings are byte
  sequences, as HOL's \<open>string\<close> is.
\<close>

type_synonym u64 = "64 word"

definition uint64 :: "int \<Rightarrow> u64" where
  "uint64 x = word_of_int x"

section \<open>pkg/core/errors: error values and the retry classifier\<close>

text \<open>
  \<open>HTTPError\<close> and \<open>RPCError\<close> are the two error structs of the package.  The other
  constructors are the errors built elsewhere in the repository: a plain error, and one
  constructor for each \<open>fmt.Errorf("...: %w", err)\<close> site, which wraps \<open>err\<close> so that
  \<open>errors.As\<close> still reaches it.  The error wrapped by \<open>MaxRetryExceeded\<close> is the
  variable \<open>lastErr\<close> of \<open>RetryWithBackoff\<close>, which may be \<open>nil\<close>.
\<close>

datatype go_error =
    HTTPError int string
  | RPCError int string
  | PlainError string
  | NonRetryable go_error
  | RetryCancelled go_error
  | MaxRetryExceeded int "go_error option"
  | ReceiptsFailed u64 go_error

text \<open>\<open>errors.As(err, &httpErr)\<close>: the first \<open>*HTTPError\<close> on the unwrap chain.\<close>

fun asHTTPError :: "go_error \<Rightarrow> (int \<times> string) option" where
  "asHTTPError (HTTPError code msg) = Some (code, msg)"
| "asHTTPError (RPCError code msg) = None"
| "asHTTPError (PlainError msg) = None"
| "asHTTPError (NonRetryable e) = asHTTPError e"
| "asHTTPError (RetryCancelled e) = asHTTPError e"
| "asHTTPError (MaxRetryExceeded n None) = None"
| "asHTTPError (MaxRetryExceeded n (Some e)) = asHTTPError e"
| "asHTTPError (ReceiptsFailed b e) = asHTTPError e"

text \<open>\<open>errors.As(err, &rpcErr)\<close>: the first \<open>*RPCError\<close> on the unwrap chain.\<close>

fun asRPCError :: "go_error \<Rightarrow> (int \<times> string) option" where
  "asRPCError (HTTPError code msg) = None"
| "asRPCError (RPCError code msg) = Some (code, msg)"
| "asRPCError (PlainError msg) = None"
| "asRPCError (NonRetryable e) = asRPCError e"
| "asRPCError (RetryCancelled e) = asRPCError e"
| "asRPCError (MaxRetryExceeded n None) = None"
| "asRPCError (MaxRetryExceeded n (Some e)) = asRPCError e"
| "asRPCError (ReceiptsFailed b e) = asRPCError e"

text \<open>The \<open>switch httpErr.StatusCode\<close> of \<open>IsRetryableError\<close>, case by case.\<close>

definition retryableStatus :: "int \<Rightarrow> bool" where
  "retryableStatus code =
     (if code = 429 \<or> code = 502 \<or> code = 503 \<or> code = 504 then True
      else if code = 500 \<or> code = 501 \<or> code = 505 \<or> code = 506 \<or> code = 507
              \<or> code = 508 \<or> code = 510 \<or> code = 511 then True
      else False)"

definition IsRetryableError :: "go_error \<Rightarrow> bool" where
  "IsRetryableError err =
     (case asHTTPError err of
        Some (code, msg) \<Rightarrow> retryableStatus code
      | None \<Rightarrow>
          (case asRPCError err of
             Some (code, msg) \<Rightarrow> (if code \<ge> -32099 \<and> code \<le> -32000 then True else False)
           | None \<Rightarrow> False))"

section \<open>Go's \<open>strconv\<close> and \<open>encoding/hex\<close>, as far as \<open>pkg/core/utils\<close> uses them\<close>

text \<open>
  \<open>strconv.FormatUint(n, 16)\<close>: the digits of \<open>n\<close> in base 16, lower case, most
  significant first, with no leading zero (\<open>"0"\<close> for 0).
\<close>

definition hexDigit :: "nat \<Rightarrow> char" where
  "hexDigit d = ''0123456789abcdef'' ! d"

function formatHex :: "nat \<Rightarrow> string" where
  "formatHex n = (if n < 16 then [hexDigit n] else formatHex (n div 16) @ [hexDigit (n mod 16)])"
  by pat_completeness auto
termination
  by (relation "measure (\<lambda>n. n)") auto

declare formatHex.simps [simp del]

definition FormatUint16 :: "u64 \<Rightarrow> string" where
  "FormatUint16 n = formatHex (unat n)"

text \<open>
  \<open>strconv.ParseUint(s, base, 64)\<close> for an explicit base from 2 to 36: the empty string
  and a byte that is not a digit of the base are syntax errors (no sign, no prefix and
  no underscore is accepted); a value above \<open>2^64 - 1\<close> is a range error.  The loop is
  the library's: \<open>cutoff = maxUint64/base + 1\<close>, then \<open>n *= base\<close>, \<open>n1 := n + d\<close> and
  the test \<open>n1 < n || n1 > maxVal\<close>, in \<open>uint64\<close> arithmetic.  A letter is read
  through \<open>lower(c) = c | 0x20\<close>, which sends exactly \<open>A..Z\<close> and \<open>a..z\<close> into \<open>a..z\<close>.
\<close>

datatype num_error = ErrSyntax | ErrRange

definition digitValue :: "char \<Rightarrow> nat option" where
  "digitValue c =
     (let v = (of_char c :: nat) in
      if 48 \<le> v \<and> v \<le> 57 then Some (v - 48)
      else if 97 \<le> v \<and> v \<le> 122 then Some (v - 97 + 10)
      else if 65 \<le> v \<and> v \<le> 90 then Some (v - 65 + 10)
      else None)"

fun parseLoop :: "u64 \<Rightarrow> string \<Rightarrow> u64 \<Rightarrow> num_error + u64" where
  "parseLoop base [] n = Inr n"
| "parseLoop base (c # cs) n =
     (case digitValue c of
        None \<Rightarrow> Inl ErrSyntax
      | Some d \<Rightarrow>
          if d \<ge> unat base then Inl ErrSyntax
          else if n \<ge> 18446744073709551615 div base + 1 then Inl ErrRange
          else
            let n = n * base;
                n1 = n + of_nat d
            in if n1 < n \<or> n1 > 18446744073709551615 then Inl ErrRange
               else parseLoop base cs n1)"

definition ParseUint :: "string \<Rightarrow> u64 \<Rightarrow> num_error + u64" where
  "ParseUint s base = (if s = [] then Inl ErrSyntax else parseLoop base s 0)"

text \<open>\<open>hex.EncodeToString\<close>: two lower-case hexadecimal digits for each byte.\<close>

definition hexEncodeToString :: "8 word list \<Rightarrow> string" where
  "hexEncodeToString bs =
     concat (map (\<lambda>b. [hexDigit (unat b div 16), hexDigit (unat b mod 16)]) bs)"

section \<open>pkg/core/utils: hex quantities and topics\<close>

definition Uint64ToHexQty :: "u64 \<Rightarrow> string" where
  "Uint64ToHexQty n = (if n = 0 then ''0x0'' else ''0x'' @ FormatUint16 n)"

definition HexQtyToUint64 :: "string \<Rightarrow> num_error + u64" where
  "HexQtyToUint64 s =
     (if length s \<ge> 2 \<and> (take 2 s = ''0x'' \<or> take 2 s = ''0X'')
      then ParseUint (drop 2 s) 16
      else ParseUint s 10)"

text \<open>
  \<open>Keccak256\<close> comes from \<open>golang.org/x/crypto/sha3\<close>; it is a parameter \<open>keccak\<close> of the
  model, a function from the bytes of the input to the bytes of the digest.
  \<open>strings.HasPrefix(s, "0x")\<close> is \<open>take 2 s = ''0x''\<close>; \<open>strings.ReplaceAll(s, " ", "")\<close>
  deletes every space.
\<close>

definition FunctionSignatureToTopic :: "(string \<Rightarrow> 8 word list) \<Rightarrow> string \<Rightarrow> string" where
  "FunctionSignatureToTopic keccak signature =
     (let cleanSig = filter (\<lambda>c. c \<noteq> CHR '' '') signature;
          hash = keccak cleanSig
      in ''0x'' @ hexEncodeToString hash)"

definition topicOf :: "(string \<Rightarrow> 8 word list) \<Rightarrow> string \<Rightarrow> string" where
  "topicOf keccak signature =
     (if length signature = 66 \<and> take 2 signature = ''0x'' then signature
      else if length signature = 64 \<and> take 2 signature \<noteq> ''0x'' then ''0x'' @ signature
      else FunctionSignatureToTopic keccak signature)"

text \<open>
  The loop of \<open>ConvertToTopics\<close> writes \<open>topics[i]\<close> for each index \<open>i\<close> of the input,
  into a slice made with the input's length.
\<close>

fun convertLoop :: "(string \<Rightarrow> 8 word list) \<Rightarrow> string list \<Rightarrow> nat \<Rightarrow> string list \<Rightarrow> string list" where
  "convertLoop keccak [] i topics = topics"
| "convertLoop keccak (signature # rest) i topics =
     convertLoop keccak rest (i + 1) (topics[i := topicOf keccak signature])"

definition ConvertToTopics :: "(string \<Rightarrow> 8 word list) \<Rightarrow> string list \<Rightarrow> string list" where
  "ConvertToTopics keccak signatures =
     convertLoop keccak signatures 0 (replicate (length signatures) [])"

section \<open>pkg/core/types and the processor's data\<close>

text \<open>
  A log's topics are \<open>[]any\<close>: a JSON string, or a value of another type.  Of the
  string fields of \<open>Log\<close> and \<open>Receipt\<close> that the processor only carries along, the
  records keep a few.  \<open>Options\<close> has the fields that the processor reads (\<open>BatchSize\<close>,
  \<open>DecoderConcurrency\<close> and \<open>EndBlock\<close> are left out), and \<open>chainState\<close> keeps the chain's
  identifier of \<open>chainInfo\<close>; the RPC adapter is passed to each function as the call it
  makes.  A channel of the processor's \<open>logsCh\<close> is its capacity and the logs it holds.
\<close>

datatype go_any = AnyString string | AnyOther

record Block =
  Number :: string
  Hash :: string
  ParentHash :: string
  Timestamp :: string

record Log =
  Address :: string
  LogTopics :: "go_any list"
  Data :: string
  BlockNumber :: string

record Receipt =
  TransactionHash :: string
  Logs :: "Log list"

text \<open>
  \<open>RetryConfig\<close>: durations are \<open>int64\<close> nanoseconds.  The \<open>float64\<close> field
  \<open>Multiplier\<close> is left out: the product \<open>time.Duration(float64(backoff) * Multiplier)\<close> is a
  parameter of \<open>RetryWithBackoff\<close> below.
\<close>

record RetryConfig =
  MaxAttempts :: int
  InitialBackoff :: int
  MaxBackoff :: int
  EnableJitter :: bool

definition DefaultRetryConfig :: RetryConfig where
  "DefaultRetryConfig =
     \<lparr>MaxAttempts = 3, InitialBackoff = 1000000000, MaxBackoff = 30000000000, EnableJitter = True\<rparr>"

record Options =
  RangeSize :: int
  FetcherConcurrency :: int
  StartBlock :: u64
  Confimation :: u64
  LogsBufferSize :: u64
  ReorgLookbackBlocks :: u64
  Topics :: "string list"
  FetchMode :: string
  RetryConfig :: "RetryConfig option"

record chainState =
  chainId :: string
  cursor :: u64
  windowOrder :: "u64 list"
  storedWindowHash :: "u64 \<rightharpoonup> string"
  storedWindowHashCap :: u64
  hardFallbackBlocks :: u64
  topics :: "string list"
  opts :: Options

record Processor =
  chains :: "string \<rightharpoonup> chainState"
  logsCh :: "string \<rightharpoonup> u64 \<times> Log list"
  isRunning :: bool

datatype go_panic =
  DivideByZero | IndexOutOfRange | NilDereference | InvalidArgument | MakechanSizeOutOfRange

text \<open>
  A method that mutates its receiver returns the new state, an error, or a panic together
  with the state as the mutations made before the panic left it.
\<close>

datatype 'a result = Panic go_panic 'a | Error go_error | Ok 'a

section \<open>pkg/core/rpc: RetryWithBackoff\<close>

text \<open>
  What \<open>RetryWithBackoff\<close> takes from outside is gathered in an environment:
  \<^item> \<open>fnResult k\<close> is what the invocation number \<open>k\<close> (from 0) of the operation
    \<open>fn\<close> returns, \<open>None\<close> for \<open>nil\<close>;
  \<^item> \<open>waitCancelled k\<close> says whether, in the \<open>select\<close> after the attempt \<open>k\<close>,
    \<open>ctx.Done()\<close> is taken rather than the timer, and \<open>ctxErr\<close> is \<open>ctx.Err()\<close>;
  \<^item> \<open>randInt63n n\<close> is the value of \<open>rand.Int63n(n)\<close>, which panics when \<open>n \<le> 0\<close>;
  \<^item> \<open>scaleBackoff b\<close> is \<open>time.Duration(float64(b) * config.Multiplier)\<close>.
  The function's effects are recorded in a trace: each invocation of \<open>fn\<close>, each
  completed sleep with its duration, and a wait that the cancellation cut short.
  Durations are integers; \<open>backoff / 4\<close> truncates towards zero.
\<close>

record retryEnv =
  fnResult :: "nat \<Rightarrow> go_error option"
  waitCancelled :: "nat \<Rightarrow> bool"
  ctxErr :: go_error
  randInt63n :: "int \<Rightarrow> int"
  scaleBackoff :: "int \<Rightarrow> int"

datatype retry_event = Call nat | Slept int | WaitCancelled



definition quot :: "int \<Rightarrow> int \<Rightarrow> int" where
  "quot a b = sgn a * sgn b * (\<bar>a\<bar> div \<bar>b\<bar>)"

text \<open>
  The loop leaves by \<open>return\<close> (\<open>Return\<close>), by a panic, or by \<open>break\<close> and by its
  condition (\<open>Exit\<close>, with the value of \<open>lastErr\<close>).
\<close>

datatype retry_exit = Return "go_error option" | Panicked go_panic | Exit "go_error option"

function retryLoop ::
  "retryEnv \<Rightarrow> RetryConfig \<Rightarrow> nat \<Rightarrow> int \<Rightarrow> go_error option \<Rightarrow> retry_event list
     \<Rightarrow> retry_exit \<times> retry_event list" where
  "retryLoop env config attempt backoff lastErr trace =
     (if int attempt < MaxAttempts config then
        let lastErr = fnResult env attempt;
            trace = trace @ [Call attempt]
        in case lastErr of
             None \<Rightarrow> (Return None, trace)
           | Some e \<Rightarrow>
               if \<not> IsRetryableError e then (Return (Some (NonRetryable e)), trace)
               else if int attempt = MaxAttempts config - 1 then (Exit lastErr, trace)
               else if EnableJitter config \<and> quot backoff 4 \<le> 0 then (Panicked InvalidArgument, trace)
               else
                 let wait = (if EnableJitter config then backoff + randInt63n env (quot backoff 4)
                             else backoff)
                 in if waitCancelled env attempt
                    then (Return (Some (RetryCancelled (ctxErr env))), trace @ [WaitCancelled])
                    else
                      let backoff = scaleBackoff env backoff;
                          backoff = (if backoff > MaxBackoff config then MaxBackoff config else backoff)
                      in retryLoop env config (attempt + 1) backoff lastErr (trace @ [Slept wait])
      else (Exit lastErr, trace))"
  by pat_completeness auto
termination
  by (relation "measure (\<lambda>(env, config, attempt, backoff, lastErr, trace).
        nat (MaxAttempts config - int attempt))") auto

declare retryLoop.simps [simp del]

definition RetryWithBackoff ::
  "retryEnv \<Rightarrow> RetryConfig \<Rightarrow> (go_panic + go_error option) \<times> retry_event list" where
  "RetryWithBackoff env config =
     (case retryLoop env config 0 (InitialBackoff config) None [] of
        (Return r, trace) \<Rightarrow> (Inr r, trace)
      | (Panicked p, trace) \<Rightarrow> (Inl p, trace)
      | (Exit lastErr, trace) \<Rightarrow> (Inr (Some (MaxRetryExceeded (MaxAttempts config) lastErr)), trace))"

section \<open>Processor.AddChain\<close>

definition NewProcessor :: Processor where
  "NewProcessor = \<lparr>chains = Map.empty, logsCh = Map.empty, isRunning = False\<rparr>"

text \<open>
  Lines 71 to 75 of \<open>AddChain\<close>: \<open>rs := uint64(opts.RangeSize)\<close>,
  \<open>base := (opts.ReorgLookbackBlocks + rs - 1) / rs\<close>, \<open>cap := base + 1\<close>, then the two
  clamps.  All of it is \<open>uint64\<close> arithmetic.  Go panics on an integer division by zero.
\<close>

definition windowHashCap :: "int \<Rightarrow> u64 \<Rightarrow> go_panic + u64" where
  "windowHashCap rangeSize reorgLookbackBlocks =
     (let rs = uint64 rangeSize in
      if rs = 0 then Inl DivideByZero
      else
        let base = (reorgLookbackBlocks + rs - 1) div rs;
            cap = base + 1;
            cap = (if cap < 8 then 8 else cap);
            cap = (if cap > 256 then 256 else cap)
        in Inr cap)"

text \<open>
  The specification's formula, over the natural numbers:
  \<open>clamp(ceil(reorgLookbackBlocks / rangeSize) + 1, 8, 256)\<close>.
\<close>

definition spec_ceil_div :: "nat \<Rightarrow> nat \<Rightarrow> nat" where
  "spec_ceil_div a b = (if a mod b = 0 then a div b else a div b + 1)"

definition spec_clamp :: "nat \<Rightarrow> nat \<Rightarrow> nat \<Rightarrow> nat" where
  "spec_clamp x lo hi = (if x < lo then lo else if x > hi then hi else x)"

definition spec_windowCap :: "nat \<Rightarrow> nat \<Rightarrow> nat" where
  "spec_windowCap lookback rangeSize = spec_clamp (spec_ceil_div lookback rangeSize + 1) 8 256"

text \<open>
  \<open>AddChain\<close>, with the processor passed and returned.  Its last statement before
  \<open>return nil\<close> is \<open>p.logsCh[chain.ChainId] = make(chan types.Log, opts.LogsBufferSize)\<close>,
  after \<open>p.chains[chain.ChainId] = chainState\<close>.  The allocation is the Go runtime's:
  \<open>makechan n\<close> is \<open>None\<close> when the runtime allocates a channel of \<open>n\<close> logs, and the panic
  otherwise (the runtime panics with "makechan: size out of range" when \<open>n\<close> elements
  exceed what it can allocate).  It is a parameter of the model, as the element size
  and the allocation limit are the platform's.  The new channel holds no log.
\<close>

definition AddChain ::
  "(string \<Rightarrow> 8 word list) \<Rightarrow> (u64 \<Rightarrow> go_panic option) \<Rightarrow> Processor \<Rightarrow> string \<Rightarrow> Options
     \<Rightarrow> Processor result" where
  "AddChain keccak makechan p chain options =
     (if isRunning p then Error (PlainError ''cannot add chain while processor is running'')
      else
        let cursor = StartBlock options;
            cursor = (if cursor = 0 then 0 else cursor)
        in case windowHashCap (RangeSize options) (ReorgLookbackBlocks options) of
             Inl pn \<Rightarrow> Panic pn p
           | Inr cap \<Rightarrow>
               let topics = ConvertToTopics keccak (Topics options);
                   options = (if FetchMode options = [] then options\<lparr>FetchMode := ''logs''\<rparr>
                              else options);
                   options = (case RetryConfig options of
                                None \<Rightarrow> options\<lparr>RetryConfig := Some DefaultRetryConfig\<rparr>
                              | Some cfg \<Rightarrow> options);
                   chainState = \<lparr>chainId = chain, cursor = cursor, windowOrder = [],
                                 storedWindowHash = Map.empty, storedWindowHashCap = cap,
                                 hardFallbackBlocks = 1000, topics = topics, opts = options\<rparr>;
                   p = p\<lparr>chains := (chains p)(chain \<mapsto> chainState)\<rparr>
               in case makechan (LogsBufferSize options) of
                    Some pn \<Rightarrow> Panic pn p
                  | None \<Rightarrow>
                      Ok (p\<lparr>logsCh := (logsCh p)(chain \<mapsto> (LogsBufferSize options, []))\<rparr>))"

section \<open>The window-hash store\<close>

text \<open>
  \<open>storeWindowHash\<close>.  Reading \<open>windowOrder[0]\<close> of an empty slice panics.
\<close>

definition storeWindowHash :: "u64 \<Rightarrow> string \<Rightarrow> chainState \<Rightarrow> go_panic + chainState" where
  "storeWindowHash to blockHash chain =
     (case storedWindowHash chain to of
        Some h \<Rightarrow> Inr (chain\<lparr>storedWindowHash := (storedWindowHash chain)(to \<mapsto> blockHash)\<rparr>)
      | None \<Rightarrow>
          let l = length (windowOrder chain) in
          if (of_nat l :: u64) \<ge> storedWindowHashCap chain then
            (case windowOrder chain of
               [] \<Rightarrow> Inl IndexOutOfRange
             | old # rest \<Rightarrow>
                 Inr (chain\<lparr>storedWindowHash := ((storedWindowHash chain)(old := None))(to \<mapsto> blockHash),
                            windowOrder := rest @ [to]\<rparr>))
          else
            Inr (chain\<lparr>storedWindowHash := (storedWindowHash chain)(to \<mapsto> blockHash),
                       windowOrder := windowOrder chain @ [to]\<rparr>))"

text \<open>
  \<open>dropWindowHash\<close>: the index \<open>i\<close> (a Go \<open>int\<close>) walks from the last element down while
  \<open>windowOrder[i] > after\<close>, deleting the map entry of each element it passes; the slice
  is then cut to \<open>windowOrder[:i+1]\<close>.
\<close>

function dropWalk :: "u64 \<Rightarrow> u64 list \<Rightarrow> int \<Rightarrow> (u64 \<rightharpoonup> string) \<Rightarrow> int \<times> (u64 \<rightharpoonup> string)" where
  "dropWalk after order i m =
     (if i \<ge> 0 \<and> order ! nat i > after
      then dropWalk after order (i - 1) (m(order ! nat i := None))
      else (i, m))"
  by pat_completeness auto
termination
  by (relation "measure (\<lambda>(after, order, i, m). nat (i + 1))") auto

declare dropWalk.simps [simp del]

definition dropWindowHash :: "u64 \<Rightarrow> chainState \<Rightarrow> chainState" where
  "dropWindowHash after chain =
     (case dropWalk after (windowOrder chain) (int (length (windowOrder chain)) - 1)
             (storedWindowHash chain) of
        (i, m) \<Rightarrow> chain\<lparr>storedWindowHash := m, windowOrder := take (nat (i + 1)) (windowOrder chain)\<rparr>)"

text \<open>
  The three conditions of the store's invariant: the slice is as long as the map is
  large, it holds exactly the map's keys, and it is no longer than the capacity.
\<close>

definition windowStoreInv :: "chainState \<Rightarrow> bool" where
  "windowStoreInv chain \<longleftrightarrow>
     length (windowOrder chain) = card (dom (storedWindowHash chain)) \<and>
     set (windowOrder chain) = dom (storedWindowHash chain) \<and>
     length (windowOrder chain) \<le> unat (storedWindowHashCap chain)"

section \<open>The reorg resolver\<close>

text \<open>
  Reading a Go map at a missing key gives the zero value, the empty string.
\<close>

definition lookupHash :: "(u64 \<rightharpoonup> string) \<Rightarrow> u64 \<Rightarrow> string" where
  "lookupHash m k = (case m k of None \<Rightarrow> [] | Some h \<Rightarrow> h)"

definition fallbackOf :: "chainState \<Rightarrow> u64" where
  "fallbackOf chain =
     (let fallback = cursor chain in
      if fallback > hardFallbackBlocks chain then fallback - hardFallbackBlocks chain else 0)"

text \<open>
  The loop of \<open>handleReorg\<close>.  \<open>GetBlock\<close> is the RPC adapter's call, from the hex
  quantity of a height to a header or an error; \<open>ctxDone k\<close> says whether the context is
  found cancelled by the \<open>select\<close> at the end of iteration \<open>k\<close>.  The loop returns
  \<open>Inl\<close> for a \<open>return\<close> inside it, and \<open>Inr ancestor\<close> when it is left by \<open>break\<close> or
  because \<open>i\<close> reached the capacity.
\<close>

function reorgLoop ::
  "(string \<Rightarrow> go_error + Block) \<Rightarrow> (nat \<Rightarrow> bool) \<Rightarrow> chainState \<Rightarrow> u64 \<Rightarrow> u64
     \<Rightarrow> (u64 \<times> chainState) + u64" where
  "reorgLoop GetBlock ctxDone chain i ancestor =
     (if i < storedWindowHashCap chain then
        let fallback = fallbackOf chain in
        case GetBlock (Uint64ToHexQty (ancestor + 1)) of
          Inl err \<Rightarrow> Inl (fallback, chain)
        | Inr windowHeadBlock \<Rightarrow>
            if ParentHash windowHeadBlock = lookupHash (storedWindowHash chain) ancestor
            then Inl (ancestor, dropWindowHash ancestor chain)
            else if ancestor < uint64 (RangeSize (opts chain)) then Inr 0
            else
              let ancestor = ancestor - uint64 (RangeSize (opts chain)) in
              if ctxDone (unat i) then Inl (fallback, chain)
              else reorgLoop GetBlock ctxDone chain (i + 1) ancestor
      else Inr ancestor)"
  by pat_completeness auto
termination
proof (relation "measure (\<lambda>(GetBlock, ctxDone, chain, i, ancestor). unat (storedWindowHashCap chain) - unat i)")
  show "wf (measure (\<lambda>(GetBlock, ctxDone, chain, i, ancestor). unat (storedWindowHashCap chain) - unat i))"
    by simp
next
  fix GetBlock :: "string \<Rightarrow> go_error + Block" and ctxDone :: "nat \<Rightarrow> bool"
    and chain :: chainState and i ancestor x xa :: u64 and b :: Block
  assume "i < storedWindowHashCap chain"
  then have "unat (i + 1) = unat i + 1" and "unat i < unat (storedWindowHashCap chain)"
    by unat_arith+
  then show "((GetBlock, ctxDone, chain, i + 1, xa), (GetBlock, ctxDone, chain, i, ancestor))
      \<in> measure (\<lambda>(GetBlock, ctxDone, chain, i, ancestor). unat (storedWindowHashCap chain) - unat i)"
    by simp
qed

declare reorgLoop.simps [simp del]

definition handleReorg ::
  "(string \<Rightarrow> go_error + Block) \<Rightarrow> (nat \<Rightarrow> bool) \<Rightarrow> chainState \<Rightarrow> u64 \<times> chainState" where
  "handleReorg GetBlock ctxDone chain =
     (case reorgLoop GetBlock ctxDone chain 0 (cursor chain) of
        Inl r \<Rightarrow> r
      | Inr ancestor \<Rightarrow>
          let fallback = fallbackOf chain;
              fallback = (if fallback \<le> 0 then 0 else fallback)
          in (fallback, dropWindowHash fallback chain))"

text \<open>
  The specification's search order: the values \<open>a\<close> that are compared, starting at the
  cursor and stepping down by the range size, at most \<open>n\<close> of them, the last one being
  the first that is below the range size.  \<open>spec_fallback\<close> is
  \<open>max(cursor - hardFallbackBlocks, 0)\<close> over the integers.
\<close>

fun spec_candidates :: "nat \<Rightarrow> u64 \<Rightarrow> u64 \<Rightarrow> u64 list" where
  "spec_candidates 0 rs a = []"
| "spec_candidates (Suc n) rs a = a # (if a < rs then [] else spec_candidates n rs (a - rs))"

definition spec_fallback :: "chainState \<Rightarrow> int" where
  "spec_fallback chain = max (uint (cursor chain) - uint (hardFallbackBlocks chain)) 0"

section \<open>runChain: the fetch planner\<close>

text \<open>
  The planner goroutine of \<open>runChain\<close> (lines 193 to 210).  The jobs sent on the channel
  are collected in a list, in the order they are sent.  \<open>ctxDone jobs\<close> says whether
  the \<open>select\<close> finds the epoch context cancelled when the jobs sent so far are \<open>jobs\<close>;
  the goroutine then returns.  The loop is \<open>uint64\<close> arithmetic and need not end (with
  \<open>target = 2^64 - 1\<close> the test \<open>from <= target\<close> never fails): not returning is
  \<open>None\<close>.
\<close>

record blockRange =
  rangeFrom :: u64
  rangeTo :: u64

partial_function (option) planLoop ::
  "(blockRange list \<Rightarrow> bool) \<Rightarrow> u64 \<Rightarrow> u64 \<Rightarrow> u64 \<Rightarrow> blockRange list \<Rightarrow> blockRange list option" where
  "planLoop ctxDone target rs from jobs =
     (if from \<le> target then
        let to = from + rs - 1;
            to = (if to > target then target else to)
        in if ctxDone jobs then Some jobs
           else planLoop ctxDone target rs (from + rs) (jobs @ [\<lparr>rangeFrom = from, rangeTo = to\<rparr>])
      else Some jobs)"

definition planJobs :: "(blockRange list \<Rightarrow> bool) \<Rightarrow> chainState \<Rightarrow> u64 \<Rightarrow> blockRange list option" where
  "planJobs ctxDone chain target =
     (let rs = uint64 (RangeSize (opts chain))
      in planLoop ctxDone target rs (cursor chain + 1) [])"

section \<open>Fetching logs from receipts\<close>

text \<open>
  \<open>matchesTopicFilter\<close>.  The loop runs over \<open>chain.topics\<close> and compares the log's first
  topic, when it is a string, with each filter topic; the first test is on the
  configured list \<open>chain.opts.Topics\<close>.
\<close>

fun topicLoop :: "go_any list \<Rightarrow> string list \<Rightarrow> bool" where
  "topicLoop logTopics [] = False"
| "topicLoop logTopics (filterTopic # rest) =
     (case logTopics of
        [] \<Rightarrow> topicLoop logTopics rest
      | AnyString logTopic # others \<Rightarrow>
          if logTopic = filterTopic then True else topicLoop logTopics rest
      | AnyOther # others \<Rightarrow> topicLoop logTopics rest)"

definition matchesTopicFilter :: "Log \<Rightarrow> chainState \<Rightarrow> bool" where
  "matchesTopicFilter log chain =
     (if length (Topics (opts chain)) = 0 then True
      else if length (LogTopics log) = 0 then False
      else topicLoop (LogTopics log) (topics chain))"

text \<open>The two inner loops of \<open>fetchLogsFromReceipts\<close>, over the receipts and over their logs.\<close>

fun appendMatching :: "chainState \<Rightarrow> Log list \<Rightarrow> Log list \<Rightarrow> Log list" where
  "appendMatching chain [] allLogs = allLogs"
| "appendMatching chain (log # rest) allLogs =
     appendMatching chain rest (if matchesTopicFilter log chain then allLogs @ [log] else allLogs)"

fun receiptLogs :: "chainState \<Rightarrow> Receipt list \<Rightarrow> Log list \<Rightarrow> Log list" where
  "receiptLogs chain [] allLogs = allLogs"
| "receiptLogs chain (receipt # rest) allLogs =
     receiptLogs chain rest (appendMatching chain (Logs receipt) allLogs)"

text \<open>
  The outer loop, \<open>for blockNum := from; blockNum <= to; blockNum++\<close>, in \<open>uint64\<close>
  arithmetic: with \<open>to = 2^64 - 1\<close> the test never fails, and not returning is \<open>None\<close>.
  \<open>GetBlockReceipts\<close> is the adapter's call; the arguments of the calls made are
  recorded, in order, next to the result.
\<close>

partial_function (option) receiptsLoop ::
  "(string \<Rightarrow> go_error + Receipt list) \<Rightarrow> chainState \<Rightarrow> u64 \<Rightarrow> u64 \<Rightarrow> Log list \<Rightarrow> string list
     \<Rightarrow> ((go_error + Log list) \<times> string list) option" where
  "receiptsLoop GetBlockReceipts chain to blockNum allLogs calls =
     (if blockNum \<le> to then
        let s_blockNum = Uint64ToHexQty blockNum in
        case GetBlockReceipts s_blockNum of
          Inl err \<Rightarrow> Some (Inl (ReceiptsFailed blockNum err), calls @ [s_blockNum])
        | Inr receipts \<Rightarrow>
            receiptsLoop GetBlockReceipts chain to (blockNum + 1)
              (receiptLogs chain receipts allLogs) (calls @ [s_blockNum])
      else Some (Inr allLogs, calls))"

definition fetchLogsFromReceipts ::
  "(string \<Rightarrow> go_error + Receipt list) \<Rightarrow> u64 \<Rightarrow> u64 \<Rightarrow> chainState
     \<Rightarrow> ((go_error + Log list) \<times> string list) option" where
  "fetchLogsFromReceipts GetBlockReceipts from to chain =
     receiptsLoop GetBlockReceipts chain to from [] []"

text \<open>
  The specification's words: the blocks of a range in ascending order, the logs of a
  block's receipts flattened, and the logs that are retained.
\<close>

definition spec_blocks :: "u64 \<Rightarrow> u64 \<Rightarrow> u64 list" where
  "spec_blocks from to = map of_nat [unat from..<Suc (unat to)]"

definition spec_blockLogs :: "(string \<Rightarrow> go_error + Receipt list) \<Rightarrow> u64 \<Rightarrow> Log list" where
  "spec_blockLogs GetBlockReceipts b =
     (case GetBlockReceipts (Uint64ToHexQty b) of
        Inl err \<Rightarrow> []
      | Inr receipts \<Rightarrow> concat (map Logs receipts))"

definition spec_retained :: "chainState \<Rightarrow> Log \<Rightarrow> bool" where
  "spec_retained chain log \<longleftrightarrow>
     Topics (opts chain) = [] \<or>
     (\<exists>t \<in> set (topics chain). LogTopics log \<noteq> [] \<and> hd (LogTopics log) = AnyString t)"

section \<open>runChain: the arbiter's commit loop\<close>

text \<open>
  A header fetch of the arbiter is \<open>GetBlock\<close> inside \<open>RetryWithBackoff\<close>.  The adapter's
  answer for a given height is taken to be the same at every attempt, so every
  invocation of the closure returns the error of \<open>GetBlock s\<close>, or \<open>nil\<close>, and the variable
  \<open>block\<close> holds the header of the last invocation, or the zero value when there was
  none or it failed.
\<close>

definition zeroBlock :: Block where
  "zeroBlock = \<lparr>Number = [], Hash = [], ParentHash = [], Timestamp = []\<rparr>"

definition retriedGetBlock ::
  "retryEnv \<Rightarrow> RetryConfig \<Rightarrow> (string \<Rightarrow> go_error + Block) \<Rightarrow> string
     \<Rightarrow> go_panic + (go_error option \<times> Block)" where
  "retriedGetBlock env config GetBlock s =
     (case RetryWithBackoff
             (env\<lparr>fnResult := (\<lambda>k. case GetBlock s of Inl e \<Rightarrow> Some e | Inr b \<Rightarrow> None)\<rparr>) config of
        (Inl p, trace) \<Rightarrow> Inl p
      | (Inr err, trace) \<Rightarrow>
          Inr (err, if trace = [] then zeroBlock
                    else (case GetBlock s of Inl e \<Rightarrow> zeroBlock | Inr b \<Rightarrow> b)))"

text \<open>
  The state of the arbiter goroutine: the chain state it mutates, its maps \<open>window\<close> and
  \<open>windowLogs\<close>, the variable \<open>next\<close>, the logs sent on \<open>logsCh\<close> so far, the one-slot
  channel \<open>errCh\<close>, and whether \<open>rpcCancel\<close> was called.
\<close>

record arbiterState =
  arb_chain :: chainState
  arb_window :: "u64 \<rightharpoonup> u64"
  arb_windowLogs :: "u64 \<rightharpoonup> Log list"
  arb_next :: u64
  arb_logsCh :: "Log list"
  arb_errCh :: "go_error option"
  arb_cancelled :: bool

datatype arbiter_exit = LoopEnded | Broke | Returned | ArbiterPanic go_panic

datatype step_result = Continue arbiterState | Stop arbiter_exit arbiterState

text \<open>
  \<open>rpcDone k\<close> says whether the epoch context is found cancelled when \<open>k\<close> logs have been
  sent.  On a failed header fetch the goroutine returns, after a non-blocking send of the
  error on \<open>errCh\<close> if the epoch context is not cancelled.
\<close>

definition reportError :: "(nat \<Rightarrow> bool) \<Rightarrow> go_error \<Rightarrow> arbiterState \<Rightarrow> arbiterState" where
  "reportError rpcDone err st =
     (if rpcDone (length (arb_logsCh st)) then st
      else st\<lparr>arb_errCh := (case arb_errCh st of None \<Rightarrow> Some err | Some e \<Rightarrow> Some e)\<rparr>)"

text \<open>The sends on \<open>logsCh\<close>, each in a \<open>select\<close> with the epoch context; \<open>True\<close> on cancel.\<close>

fun emitLogs :: "(nat \<Rightarrow> bool) \<Rightarrow> Log list \<Rightarrow> Log list \<Rightarrow> bool \<times> Log list" where
  "emitLogs rpcDone [] out = (False, out)"
| "emitLogs rpcDone (l # logs) out =
     (if rpcDone (length out) then (True, out) else emitLogs rpcDone logs (out @ [l]))"

text \<open>
  One iteration of \<open>for end, ok2 := window[next]; ok2; end, ok2 = window[next]\<close>
  (lines 294 to 364).  \<open>ctxDone\<close> is the parent context's oracle for \<open>handleReorg\<close>.
\<close>

definition commitStep ::
  "retryEnv \<Rightarrow> (string \<Rightarrow> go_error + Block) \<Rightarrow> (nat \<Rightarrow> bool) \<Rightarrow> (nat \<Rightarrow> bool)
     \<Rightarrow> arbiterState \<Rightarrow> step_result" where
  "commitStep env GetBlock rpcDone ctxDone st =
     (case arb_window st (arb_next st) of
        None \<Rightarrow> Stop LoopEnded st
      | Some end \<Rightarrow>
          (case RetryConfig (opts (arb_chain st)) of
             None \<Rightarrow> Stop (ArbiterPanic NilDereference) st
           | Some config \<Rightarrow>
               (case retriedGetBlock env config GetBlock (Uint64ToHexQty (arb_next st)) of
                  Inl p \<Rightarrow> Stop (ArbiterPanic p) st
                | Inr (Some err, block) \<Rightarrow> Stop Returned (reportError rpcDone err st)
                | Inr (None, block) \<Rightarrow>
                    if arb_next st = 0 then Stop Broke st
                    else if (case storedWindowHash (arb_chain st) (arb_next st - 1) of
                               None \<Rightarrow> False
                             | Some parent \<Rightarrow> ParentHash block \<noteq> parent)
                    then
                      (case handleReorg GetBlock ctxDone (arb_chain st) of
                         (ancestor, chain') \<Rightarrow>
                           Stop Returned
                             (st\<lparr>arb_cancelled := True, arb_chain := chain'\<lparr>cursor := ancestor\<rparr>\<rparr>))
                    else
                      (case emitLogs rpcDone
                              (case arb_windowLogs st (arb_next st) of None \<Rightarrow> [] | Some logs \<Rightarrow> logs)
                              (arb_logsCh st) of
                         (True, out) \<Rightarrow> Stop Returned (st\<lparr>arb_logsCh := out\<rparr>)
                       | (False, out) \<Rightarrow>
                           let st = st\<lparr>arb_logsCh := out,
                                      arb_windowLogs := (arb_windowLogs st)(arb_next st := None),
                                      arb_window := (arb_window st)(arb_next st := None),
                                      arb_chain := (arb_chain st)\<lparr>cursor := end\<rparr>,
                                      arb_next := end + 1\<rparr>
                           in case retriedGetBlock env config GetBlock (Uint64ToHexQty end) of
                                Inl p \<Rightarrow> Stop (ArbiterPanic p) st
                              | Inr (Some err, block) \<Rightarrow> Stop Returned (reportError rpcDone err st)
                              | Inr (None, block) \<Rightarrow>
                                  (case storeWindowHash end (Hash block) (arb_chain st) of
                                     Inl p \<Rightarrow> Stop (ArbiterPanic p) st
                                   | Inr chain' \<Rightarrow> Continue (st\<lparr>arb_chain := chain'\<rparr>))))))"

text \<open>
  The loop.  Each iteration that continues has deleted \<open>window[next]\<close>, so the loop ends.
\<close>

function commitLoop ::
  "retryEnv \<Rightarrow> (string \<Rightarrow> go_error + Block) \<Rightarrow> (nat \<Rightarrow> bool) \<Rightarrow> (nat \<Rightarrow> bool)
     \<Rightarrow> arbiterState \<Rightarrow> arbiter_exit \<times> arbiterState" where
  "commitLoop env GetBlock rpcDone ctxDone st =
     (case commitStep env GetBlock rpcDone ctxDone st of
        Continue st' \<Rightarrow> commitLoop env GetBlock rpcDone ctxDone st'
      | Stop ex st' \<Rightarrow> (ex, st'))"
  by pat_completeness auto
termination
proof (relation "measure (\<lambda>(env, GetBlock, rpcDone, ctxDone, st). card (dom (arb_window st)))")
  show "wf (measure (\<lambda>(env, GetBlock, rpcDone, ctxDone, st). card (dom (arb_window st))))"
    by simp
next
  fix env :: retryEnv and GetBlock :: "string \<Rightarrow> go_error + Block"
    and rpcDone ctxDone :: "nat \<Rightarrow> bool" and st st' :: arbiterState
  assume c: "commitStep env GetBlock rpcDone ctxDone st = Continue st'"
  then have "arb_next st \<in> dom (arb_window st) \<and>
      arb_window st' = (arb_window st)(arb_next st := None)"
    by (auto simp: commitStep_def Let_def
        split: option.splits sum.splits prod.splits if_splits bool.splits)
  then have "arb_next st \<in> dom (arb_window st)"
    and "dom (arb_window st') = dom (arb_window st) - {arb_next st}"
    by simp_all
  moreover have "finite (dom (arb_window st))" by simp
  ultimately have "card (dom (arb_window st')) < card (dom (arb_window st))"
    by (simp only: card_Diff1_less)
  then show "((env, GetBlock, rpcDone, ctxDone, st'), (env, GetBlock, rpcDone, ctxDone, st))
      \<in> measure (\<lambda>(env, GetBlock, rpcDone, ctxDone, st). card (dom (arb_window st)))"
    by simp
qed

declare commitLoop.simps [simp del]

text \<open>
  The arbiter on a message \<open>doneMsg{from, to, logs}\<close> from \<open>doneCh\<close>: it records the
  window and runs the commit loop.
\<close>

definition arbiterReceive ::
  "retryEnv \<Rightarrow> (string \<Rightarrow> go_error + Block) \<Rightarrow> (nat \<Rightarrow> bool) \<Rightarrow> (nat \<Rightarrow> bool)
     \<Rightarrow> u64 \<times> u64 \<times> Log list \<Rightarrow> arbiterState \<Rightarrow> arbiter_exit \<times> arbiterState" where
  "arbiterReceive env GetBlock rpcDone ctxDone dm st =
     (case dm of
        (from, to, logs) \<Rightarrow>
          commitLoop env GetBlock rpcDone ctxDone
            (st\<lparr>arb_window := (arb_window st)(from \<mapsto> to),
                arb_windowLogs := (arb_windowLogs st)(from \<mapsto> logs)\<rparr>))"

section \<open>Example inputs\<close>

definition exampleOptions :: Options where
  "exampleOptions =
     \<lparr>RangeSize = 10, FetcherConcurrency = 4, StartBlock = 0, Confimation = 0,
      LogsBufferSize = 1024, ReorgLookbackBlocks = 640, Topics = [], FetchMode = [],
      RetryConfig = None\<rparr>"

text \<open>
  A runtime that allocates a channel of up to \<open>2^32\<close> logs and panics above that.
\<close>

definition exampleMakechan :: "u64 \<Rightarrow> go_panic option" where
  "exampleMakechan n = (if n \<le> 4294967296 then None else Some MakechanSizeOutOfRange)"

text \<open>A chain whose window order is not ascending: window 100 was stored before window 50.\<close>

definition exampleUnsortedChain :: chainState where
  "exampleUnsortedChain =
     \<lparr>chainId = ''1'', cursor = 50, windowOrder = [100, 50],
      storedWindowHash = [100 \<mapsto> ''h100'', 50 \<mapsto> ''h50''], storedWindowHashCap = 8,
      hardFallbackBlocks = 1000, topics = [], opts = exampleOptions\<rparr>"

text \<open>A chain in the steady state, with the windows ending at 10, 20 and 30 committed.\<close>

definition exampleChain :: chainState where
  "exampleChain =
     \<lparr>chainId = ''1'', cursor = 30, windowOrder = [10, 20, 30],
      storedWindowHash = [10 \<mapsto> ''h10'', 20 \<mapsto> ''h20'', 30 \<mapsto> ''h30''],
      storedWindowHashCap = 3, hardFallbackBlocks = 1000, topics = [], opts = exampleOptions\<rparr>"

text \<open>
  An adapter whose every header has the parent hash \<open>h50\<close>, and one on a chain that
  kept the block 20 and replaced the blocks after it: the header at height 21 (\<open>0x15\<close>)
  has the parent hash \<open>h20\<close>, every other header an unknown one.
\<close>

definition exampleGetBlock50 :: "string \<Rightarrow> go_error + Block" where
  "exampleGetBlock50 s = Inr \<lparr>Number = s, Hash = ''x'', ParentHash = ''h50'', Timestamp = []\<rparr>"

definition exampleGetBlockFork :: "string \<Rightarrow> go_error + Block" where
  "exampleGetBlockFork s =
     Inr \<lparr>Number = s, Hash = ''y'',
          ParentHash = (if s = ''0x15'' then ''h20'' else ''forked''), Timestamp = []\<rparr>"

text \<open>An operation that fails twice with a gateway timeout and then succeeds.\<close>

definition exampleRetryEnv :: retryEnv where
  "exampleRetryEnv =
     \<lparr>fnResult = (\<lambda>k. if k < 2 then Some (HTTPError 504 ''timeout'') else None),
      waitCancelled = (\<lambda>k. False), ctxErr = PlainError ''context canceled'',
      randInt63n = (\<lambda>n. 0), scaleBackoff = (\<lambda>b. 2 * b)\<rparr>"

text \<open>
  A chain that filters on one topic, and an adapter whose block 1 (\<open>0x1\<close>) has one receipt
  with a log of that topic and a log of another, every other block having none.
\<close>

definition exampleTopicChain :: chainState where
  "exampleTopicChain =
     exampleChain\<lparr>topics := [''0xaa''], opts := exampleOptions\<lparr>Topics := [''0xaa'']\<rparr>\<rparr>"

definition exampleLogA :: Log where
  "exampleLogA = \<lparr>Address = ''0xabc'', LogTopics = [AnyString ''0xaa''], Data = [], BlockNumber = ''0x1''\<rparr>"

definition exampleLogB :: Log where
  "exampleLogB = \<lparr>Address = ''0xdef'', LogTopics = [AnyString ''0xbb''], Data = [], BlockNumber = ''0x1''\<rparr>"

definition exampleGetBlockReceipts :: "string \<Rightarrow> go_error + Receipt list" where
  "exampleGetBlockReceipts s =
     (if s = ''0x1'' then Inr [\<lparr>TransactionHash = ''0x77'', Logs = [exampleLogA, exampleLogB]\<rparr>]
      else Inr [])"

text \<open>
  An arbiter whose cursor is \<open>2^64 - 1\<close>, so that \<open>next = cursor + 1\<close> is 0, holding the
  fetched window \<open>[0, 9]\<close> with one log; and an arbiter in the steady state at cursor 30,
  holding the fetched window \<open>[31, 40]\<close> with the same log.
\<close>

definition exampleGenesisArbiter :: arbiterState where
  "exampleGenesisArbiter =
     \<lparr>arb_chain = exampleChain\<lparr>cursor := 18446744073709551615, windowOrder := [],
          storedWindowHash := Map.empty,
          opts := exampleOptions\<lparr>RetryConfig := Some DefaultRetryConfig\<rparr>\<rparr>,
      arb_window = [0 \<mapsto> 9], arb_windowLogs = [0 \<mapsto> [exampleLogA]], arb_next = 0,
      arb_logsCh = [], arb_errCh = None, arb_cancelled = False\<rparr>"

section \<open>Theorems\<close>

subsection \<open>The retry classifier\<close>

lemma IsRetryableError_HTTP:
  "IsRetryableError (HTTPError code msg) \<longleftrightarrow>
     code \<in> {429, 500, 501, 502, 503, 504, 505, 506, 507, 508, 510, 511}"
  by (simp add: IsRetryableError_def retryableStatus_def)

lemma IsRetryableError_RPC:
  "IsRetryableError (RPCError code msg) \<longleftrightarrow> -32099 \<le> code \<and> code \<le> -32000"
  by (simp add: IsRetryableError_def)

lemma IsRetryableError_Plain: "IsRetryableError (PlainError msg) = False"
  by (simp add: IsRetryableError_def)

text \<open>
  C4.  The claim asks \<open>IsRetryableError\<close> to be true for every HTTP status from 500 to
  599.  The switch lists 500 to 508, 510 and 511 only; status 509 falls to the default
  branch, which the source comments as "4xx client errors, 2xx success", and is
  classified as not retryable.  The rest of the claim is as the three lemmas above say:
  429 is retryable, the other statuses are not, an RPC error is retryable exactly for
  the codes from -32099 to -32000, and a plain error is not.
\<close>

theorem IsRetryableError_status_509: "IsRetryableError (HTTPError 509 msg) = False"
  by (simp add: IsRetryableError_def retryableStatus_def)

subsection \<open>The capacity of the window-hash store\<close>

lemma ceil_div_alt: "0 < b \<Longrightarrow> (a + b - 1) div b = spec_ceil_div a b" for a b :: nat
proof -
  assume b: "0 < b"
  show ?thesis
  proof (cases "a mod b = 0")
    case True
    then obtain k where k: "a = b * k" by auto
    have "(b * k + b - 1) div b = k"
    proof -
      have "b * k + b - 1 = (b - 1) + k * b" using b by (simp add: algebra_simps)
      moreover have "((b - 1) + k * b) div b = k" using b by (subst div_mult_self1) simp_all
      ultimately show ?thesis by simp
    qed
    then show ?thesis using True k b by (simp add: spec_ceil_div_def)
  next
    case False
    define q r where "q = a div b" and "r = a mod b"
    have a: "a = q * b + r" and r: "0 < r" "r < b" using False b by (auto simp: q_def r_def)
    have "a + b - 1 = (r - 1) + (q + 1) * b" using r by (simp add: a algebra_simps)
    moreover have "((r - 1) + (q + 1) * b) div b = q + 1" using r by (subst div_mult_self1) simp_all
    ultimately show ?thesis using False by (simp add: spec_ceil_div_def q_def)
  qed
qed

lemma unat_uint64: "0 \<le> x \<Longrightarrow> x < 2 ^ 64 \<Longrightarrow> unat (uint64 x) = nat x"
  by (simp add: uint64_def unat_eq_nat_uint uint_word_of_int)

lemma windowHashCap_spec:
  assumes rs: "0 < rangeSize" "rangeSize < 2 ^ 63"
    and nw: "unat lookback + nat rangeSize < 2 ^ 64"
  shows "\<exists>cap. windowHashCap rangeSize lookback = Inr cap \<and>
           unat cap = spec_windowCap (unat lookback) (nat rangeSize)"
proof -
  define R where "R = nat rangeSize"
  define L where "L = unat lookback"
  have R: "unat (uint64 rangeSize) = R" "0 < R"
    using rs by (simp_all add: unat_uint64 R_def)
  have rs0: "uint64 rangeSize \<noteq> 0" using R by (metis unat_0 less_numeral_extra(3))
  have s1: "unat (lookback + uint64 rangeSize) = L + R"
    using nw R by (simp add: unat_add_lem [THEN iffD1] L_def R_def)
  have s2: "unat (lookback + uint64 rangeSize - 1) = L + R - 1"
    using s1 R by (simp add: unat_sub word_le_nat_alt)
  have s3: "unat ((lookback + uint64 rangeSize - 1) div uint64 rangeSize) = spec_ceil_div L R"
  proof -
    have "(L + R - 1) div R = spec_ceil_div L R" using ceil_div_alt R(2) by blast
    then show ?thesis by (simp only: unat_div s2 R(1))
  qed
  have le: "spec_ceil_div L R \<le> L + R - 1"
    using ceil_div_alt [of R L] R by (metis div_le_dividend)
  define cap0 where "cap0 = (lookback + uint64 rangeSize - 1) div uint64 rangeSize + 1"
  have s4: "unat cap0 = spec_ceil_div L R + 1"
    unfolding cap0_def using s3 le nw R by (simp add: unat_add_lem [THEN iffD1] L_def R_def)
  have eq: "windowHashCap rangeSize lookback =
      Inr (if (if cap0 < 8 then 8 else cap0) > 256 then 256 else (if cap0 < 8 then 8 else cap0))"
    using rs0 by (simp add: windowHashCap_def Let_def cap0_def)
  have "unat (if (if cap0 < 8 then 8 else cap0) > 256 then 256 else (if cap0 < 8 then 8 else cap0))
      = spec_windowCap L R"
    using s4 by (simp add: spec_windowCap_def spec_clamp_def word_less_nat_alt)
  then show ?thesis using eq by (simp add: L_def R_def)
qed

text \<open>
  C6, as the claim states it, fails where the \<open>uint64\<close> arithmetic wraps around: with
  \<open>ReorgLookbackBlocks = 2^64 - 1\<close> and \<open>RangeSize = 1\<close> the quotient is \<open>2^64 - 1\<close>,
  \<open>base + 1\<close> wraps to 0 and the capacity is raised to 8, where the formula gives 256.
\<close>

theorem AddChain_windowHashCap_wraps:
  "(case AddChain (\<lambda>d. []) exampleMakechan NewProcessor ''1''
           (exampleOptions\<lparr>RangeSize := 1, ReorgLookbackBlocks := 18446744073709551615\<rparr>) of
      Ok p \<Rightarrow> map_option storedWindowHashCap (chains p ''1'') = Some 8
    | Error e \<Rightarrow> False
    | Panic pn p \<Rightarrow> False) \<and>
   spec_windowCap (unat (18446744073709551615 :: u64)) (nat 1) = 256"
  by (simp add: AddChain_def NewProcessor_def exampleOptions_def exampleMakechan_def
      windowHashCap_def uint64_def spec_windowCap_def spec_clamp_def spec_ceil_div_def)

text \<open>
  When the runtime refuses the channel, \<open>AddChain\<close> panics, with the chain already
  registered under the capacity that lines 71 to 75 computed.
\<close>

lemma AddChain_makechan_panics:
  assumes "\<not> isRunning p"
    and "windowHashCap (RangeSize options) (ReorgLookbackBlocks options) = Inr cap"
    and "makechan (LogsBufferSize options) = Some pn"
  shows "\<exists>p' cs. AddChain keccak makechan p chain options = Panic pn p' \<and>
           chains p' chain = Some cs \<and> storedWindowHashCap cs = cap \<and> logsCh p' = logsCh p"
  using assms by (cases "RetryConfig options") (simp_all add: AddChain_def Let_def)

text \<open>
  C6, amended.  For every options value with \<open>RangeSize > 0\<close> (a Go \<open>int\<close>, so below
  \<open>2^63\<close>), \<open>ReorgLookbackBlocks + RangeSize < 2^64\<close> and a \<open>LogsBufferSize\<close> for which the
  runtime allocates the output channel, \<open>AddChain\<close> on a processor that is not running
  returns without a panic and registers the chain with the window-hash capacity
  \<open>clamp(ceil(ReorgLookbackBlocks / RangeSize) + 1, 8, 256)\<close> and with an empty output
  channel of capacity \<open>LogsBufferSize\<close>.
\<close>

theorem AddChain_windowHashCap:
  assumes run: "\<not> isRunning p"
    and rs: "0 < RangeSize options" "RangeSize options < 2 ^ 63"
    and nw: "unat (ReorgLookbackBlocks options) + nat (RangeSize options) < 2 ^ 64"
    and mk: "makechan (LogsBufferSize options) = None"
  shows "\<exists>p' cs. AddChain keccak makechan p chain options = Ok p' \<and> chains p' chain = Some cs \<and>
           unat (storedWindowHashCap cs) =
             spec_windowCap (unat (ReorgLookbackBlocks options)) (nat (RangeSize options)) \<and>
           logsCh p' chain = Some (LogsBufferSize options, [])"
proof -
  from windowHashCap_spec [OF rs nw] obtain cap where
    cap: "windowHashCap (RangeSize options) (ReorgLookbackBlocks options) = Inr cap"
      "unat cap = spec_windowCap (unat (ReorgLookbackBlocks options)) (nat (RangeSize options))"
    by blast
  show ?thesis
    using run cap mk by (cases "RetryConfig options") (simp_all add: AddChain_def Let_def)
qed

theorem AddChain_windowHashCap_witness:
  "\<not> isRunning NewProcessor \<and> 0 < RangeSize exampleOptions \<and> RangeSize exampleOptions < 2 ^ 63 \<and>
   unat (ReorgLookbackBlocks exampleOptions) + nat (RangeSize exampleOptions) < 2 ^ 64 \<and>
   exampleMakechan (LogsBufferSize exampleOptions) = None \<and>
   spec_windowCap (unat (ReorgLookbackBlocks exampleOptions)) (nat (RangeSize exampleOptions)) = 65 \<and>
   (\<exists>p' cs. AddChain (\<lambda>d. []) exampleMakechan NewProcessor ''1'' exampleOptions = Ok p' \<and>
      chains p' ''1'' = Some cs \<and> unat (storedWindowHashCap cs) = 65 \<and>
      logsCh p' ''1'' = Some (1024, []))"
proof -
  have h1: "\<not> isRunning NewProcessor" by (simp add: NewProcessor_def)
  have h2: "0 < RangeSize exampleOptions" "RangeSize exampleOptions < 2 ^ 63"
    by (simp_all add: exampleOptions_def)
  have h3: "unat (ReorgLookbackBlocks exampleOptions) + nat (RangeSize exampleOptions) < 2 ^ 64"
    by (simp add: exampleOptions_def)
  have h4: "spec_windowCap (unat (ReorgLookbackBlocks exampleOptions)) (nat (RangeSize exampleOptions)) = 65"
    by (simp add: exampleOptions_def spec_windowCap_def spec_clamp_def spec_ceil_div_def)
  have h5: "exampleMakechan (LogsBufferSize exampleOptions) = None"
    by (simp add: exampleOptions_def exampleMakechan_def)
  have h6: "LogsBufferSize exampleOptions = 1024" by (simp add: exampleOptions_def)
  show ?thesis
    using AddChain_windowHashCap [where makechan = exampleMakechan, OF h1 h2 h3 h5, of "\<lambda>d. []" "''1''"]
      h1 h2 h3 h4 h5 h6
    by simp
qed

subsection \<open>Hex quantities\<close>

lemma digitValue_hexDigit: "d < 16 \<Longrightarrow> digitValue (hexDigit d) = Some d"
proof -
  assume "d < 16"
  then have "d \<in> {0,1,2,3,4,5,6,7,8,9,10,11,12,13,14,15}" by simp arith
  then show ?thesis
    unfolding insert_iff empty_iff by (elim disjE) (simp_all add: hexDigit_def digitValue_def)
qed

lemma parseLoop_append:
  "parseLoop b (xs @ ys) n =
     (case parseLoop b xs n of Inl e \<Rightarrow> Inl e | Inr n' \<Rightarrow> parseLoop b ys n')"
  by (induction xs arbitrary: n) (auto simp: Let_def split: option.splits)

lemma unat_of_nat64: "m < 2 ^ 64 \<Longrightarrow> unat (of_nat m :: u64) = m"
  by (simp add: unat_of_nat)

lemma unat_lt64: "unat (w :: u64) < 2 ^ 64"
  using unsigned_less [of w, where 'a = nat] by simp

lemma parse_step:
  assumes m: "m < 2 ^ 60" and d: "d < 16"
  shows "parseLoop 16 [hexDigit d] (of_nat m) = Inr (of_nat (m * 16 + d))"
proof -
  have um: "unat (of_nat m :: u64) = m" using m by (simp add: unat_of_nat64)
  have c: "\<not> (of_nat m :: u64) \<ge> 18446744073709551615 div 16 + 1"
    using um m by (simp add: word_le_nat_alt)
  have u16: "unat ((of_nat m :: u64) * 16) = m * 16"
    using m um by (simp add: unat_word_ariths)
  have ud: "unat (of_nat d :: u64) = d" using d by (simp add: unat_of_nat64)
  have u1: "unat ((of_nat m :: u64) * 16 + of_nat d) = m * 16 + d"
    using m d u16 ud by (simp add: unat_word_ariths)
  have n1: "\<not> ((of_nat m :: u64) * 16 + of_nat d < of_nat m * 16)"
    using u1 u16 by (simp add: word_less_nat_alt)
  have n2: "\<not> ((of_nat m :: u64) * 16 + of_nat d > 18446744073709551615)"
    using unat_lt64 [of "of_nat m * 16 + of_nat d"] by (simp add: word_less_nat_alt)
  show ?thesis
    using c n1 n2 d by (simp add: digitValue_hexDigit Let_def)
qed

lemma parse_formatHex: "m < 2 ^ 64 \<Longrightarrow> parseLoop 16 (formatHex m) 0 = Inr (of_nat m)"
proof (induction m rule: formatHex.induct)
  case (1 n)
  show ?case
  proof (cases "n < 16")
    case True
    then have "parseLoop 16 [hexDigit n] (of_nat 0) = Inr (of_nat (0 * 16 + n))"
      by (intro parse_step) simp_all
    then show ?thesis using True by (simp add: formatHex.simps [of n])
  next
    case False
    have lt: "n div 16 < 2 ^ 60" using "1.prems" by simp
    then have "n div 16 < 2 ^ 64" by simp
    then have ih: "parseLoop 16 (formatHex (n div 16)) 0 = Inr (of_nat (n div 16))"
      using "1.IH" False by simp
    have "parseLoop 16 [hexDigit (n mod 16)] (of_nat (n div 16)) = Inr (of_nat (n div 16 * 16 + n mod 16))"
      by (intro parse_step lt) simp
    then show ?thesis using False ih
      by (simp add: formatHex.simps [of n] parseLoop_append)
  qed
qed

lemma formatHex_ne: "formatHex n \<noteq> []"
  by (subst formatHex.simps) simp

lemma HexQty_roundtrip: "HexQtyToUint64 (Uint64ToHexQty n) = Inr n"
proof (cases "n = 0")
  case True
  then show ?thesis
    by (simp add: HexQtyToUint64_def Uint64ToHexQty_def ParseUint_def digitValue_def word_le_nat_alt word_less_nat_alt)
next
  case False
  have "parseLoop 16 (formatHex (unat n)) 0 = Inr (of_nat (unat n))"
    by (rule parse_formatHex) (rule unat_lt64)
  then show ?thesis using False
    by (simp add: HexQtyToUint64_def Uint64ToHexQty_def ParseUint_def FormatUint16_def formatHex_ne)
qed

text \<open>
  C10.  For every \<open>uint64\<close> value \<open>n\<close>, \<open>HexQtyToUint64 (Uint64ToHexQty n)\<close> returns \<open>n\<close>
  and no error; in particular \<open>Uint64ToHexQty 0\<close> is \<open>"0x0"\<close>, which decodes to 0.
\<close>

theorem HexQtyToUint64_Uint64ToHexQty:
  "HexQtyToUint64 (Uint64ToHexQty n) = Inr n \<and>
   Uint64ToHexQty 0 = ''0x0'' \<and> HexQtyToUint64 ''0x0'' = Inr 0"
proof -
  have z: "Uint64ToHexQty 0 = ''0x0''" by (simp add: Uint64ToHexQty_def)
  have "HexQtyToUint64 (Uint64ToHexQty 0) = Inr 0" by (rule HexQty_roundtrip)
  then have "HexQtyToUint64 ''0x0'' = Inr 0" by (simp only: z)
  then show ?thesis using z by (simp only: HexQty_roundtrip simp_thms)
qed

subsection \<open>Topic canonicalization\<close>

lemma length_hexEncodeToString: "length (hexEncodeToString bs) = 2 * length bs"
  by (induction bs) (simp_all add: hexEncodeToString_def)

lemma convertLoop_eq:
  "i + length sigs \<le> length ts \<Longrightarrow>
   convertLoop keccak sigs i ts =
     take i ts @ map (topicOf keccak) sigs @ drop (i + length sigs) ts"
proof (induction sigs arbitrary: i ts)
  case Nil
  then show ?case by simp
next
  case (Cons a sigs)
  have "convertLoop keccak (a # sigs) i ts =
      convertLoop keccak sigs (Suc i) (ts[i := topicOf keccak a])" by simp
  also have "\<dots> = take (Suc i) (ts[i := topicOf keccak a]) @ map (topicOf keccak) sigs
      @ drop (Suc i + length sigs) (ts[i := topicOf keccak a])"
    using Cons.prems by (intro Cons.IH) simp
  also have "take (Suc i) (ts[i := topicOf keccak a]) = take i ts @ [topicOf keccak a]"
    using Cons.prems by (simp add: take_Suc_conv_app_nth)
  also have "drop (Suc i + length sigs) (ts[i := topicOf keccak a]) = drop (Suc i + length sigs) ts"
    by simp
  finally show ?case by simp
qed

lemma ConvertToTopics_map: "ConvertToTopics keccak sigs = map (topicOf keccak) sigs"
  by (simp add: ConvertToTopics_def convertLoop_eq)

lemma topicOf_canonical:
  assumes "length (keccak (filter (\<lambda>c. c \<noteq> CHR '' '') s)) = 32"
  shows "length (topicOf keccak s) = 66 \<and> take 2 (topicOf keccak s) = ''0x''"
  using assms
  by (simp add: topicOf_def FunctionSignatureToTopic_def Let_def length_hexEncodeToString)

lemma topicOf_idem:
  assumes "length (keccak (filter (\<lambda>c. c \<noteq> CHR '' '') s)) = 32"
  shows "topicOf keccak (topicOf keccak s) = topicOf keccak s"
  using topicOf_canonical [of keccak s] assms by (subst topicOf_def) simp

text \<open>
  C9.  \<open>ConvertToTopics\<close> is idempotent, its output has the length of its input, and the
  element at each position is the canonical form of the input's element at that
  position.  The digest function is the library's Keccak-256, of which the proof uses
  only that a digest has 32 bytes.
\<close>

theorem ConvertToTopics_idempotent:
  assumes "\<forall>d. length (keccak d) = 32"
  shows "ConvertToTopics keccak (ConvertToTopics keccak sigs) = ConvertToTopics keccak sigs \<and>
         length (ConvertToTopics keccak sigs) = length sigs \<and>
         (\<forall>i < length sigs. ConvertToTopics keccak sigs ! i = topicOf keccak (sigs ! i))"
  using assms by (simp add: ConvertToTopics_map topicOf_idem)

lemma ConvertToTopics_example:
  "ConvertToTopics (\<lambda>d. replicate 32 171) [''a b'', replicate 64 CHR ''1'']
     = [''0xabababababababababababababababababababababababababababababababab'',
        ''0x1111111111111111111111111111111111111111111111111111111111111111'']"
  by code_simp

theorem ConvertToTopics_idempotent_witness:
  "(\<forall>d. length ((\<lambda>d. replicate 32 (171 :: 8 word)) d) = 32) \<and>
   ConvertToTopics (\<lambda>d. replicate 32 171)
     (ConvertToTopics (\<lambda>d. replicate 32 171) [''a b'', replicate 64 CHR ''1''])
     = [''0xabababababababababababababababababababababababababababababababab'',
        ''0x1111111111111111111111111111111111111111111111111111111111111111'']"
  using ConvertToTopics_idempotent [of "\<lambda>d. replicate 32 171" "[''a b'', replicate 64 CHR ''1'']"]
  by (simp only: ConvertToTopics_example length_replicate simp_thms)

subsection \<open>The window-hash store\<close>

lemma windowStoreInv_distinct: "windowStoreInv chain \<Longrightarrow> distinct (windowOrder chain)"
  by (simp add: windowStoreInv_def card_distinct)

lemma dropWalk_result:
  "n \<le> length order \<Longrightarrow>
   \<exists>n' \<le> n. dropWalk after order (int n - 1) m =
       (int n' - 1, \<lambda>k. if k \<in> set (drop n' (take n order)) then None else m k) \<and>
     (\<forall>k \<in> set (drop n' (take n order)). after < k) \<and>
     (0 < n' \<longrightarrow> \<not> after < order ! (n' - 1))"
proof (induction n arbitrary: m)
  case 0
  show ?case by (subst dropWalk.simps) simp
next
  case (Suc n)
  show ?case
  proof (cases "after < order ! n")
    case False
    then have "dropWalk after order (int (Suc n) - 1) m = (int (Suc n) - 1, m)"
      by (subst dropWalk.simps) simp
    with False show ?thesis by (intro exI [of _ "Suc n"]) simp
  next
    case True
    let ?m = "m(order ! n := None)"
    from Suc obtain n' where n': "n' \<le> n"
      and w: "dropWalk after order (int n - 1) ?m =
        (int n' - 1, \<lambda>k. if k \<in> set (drop n' (take n order)) then None else ?m k)"
      and a: "\<forall>k \<in> set (drop n' (take n order)). after < k"
      and b: "0 < n' \<longrightarrow> \<not> after < order ! (n' - 1)"
      using Suc_leD by blast
    have tk: "drop n' (take (Suc n) order) = drop n' (take n order) @ [order ! n]"
      using Suc.prems n' by (simp add: take_Suc_conv_app_nth)
    have "dropWalk after order (int (Suc n) - 1) m = dropWalk after order (int n - 1) ?m"
      using True by (subst dropWalk.simps) simp
    also note w
    also have "(\<lambda>k. if k \<in> set (drop n' (take n order)) then None else ?m k) =
        (\<lambda>k. if k \<in> set (drop n' (take (Suc n) order)) then None else m k)"
      by (auto simp: tk)
    finally show ?thesis using n' a b True
      by (intro exI [of _ n']) (auto simp: tk)
  qed
qed

lemma dropWindowHash_result:
  "\<exists>n' \<le> length (windowOrder chain).
     dropWindowHash after chain =
       chain\<lparr>storedWindowHash := (\<lambda>k. if k \<in> set (drop n' (windowOrder chain)) then None
                                      else storedWindowHash chain k),
             windowOrder := take n' (windowOrder chain)\<rparr> \<and>
     (\<forall>k \<in> set (drop n' (windowOrder chain)). after < k) \<and>
     (0 < n' \<longrightarrow> \<not> after < windowOrder chain ! (n' - 1))"
proof -
  from dropWalk_result [of "length (windowOrder chain)" "windowOrder chain" after "storedWindowHash chain"]
  obtain n' where n': "n' \<le> length (windowOrder chain)"
    and w: "dropWalk after (windowOrder chain) (int (length (windowOrder chain)) - 1) (storedWindowHash chain) =
       (int n' - 1, \<lambda>k. if k \<in> set (drop n' (windowOrder chain)) then None else storedWindowHash chain k)"
    and a: "\<forall>k \<in> set (drop n' (windowOrder chain)). after < k"
    and b: "0 < n' \<longrightarrow> \<not> after < windowOrder chain ! (n' - 1)"
    by auto
  show ?thesis
    using n' a b by (intro exI [of _ n']) (simp add: dropWindowHash_def w)
qed

lemma dropWindowHash_inv:
  assumes "windowStoreInv chain"
  shows "windowStoreInv (dropWindowHash after chain)"
proof -
  let ?o = "windowOrder chain" and ?m = "storedWindowHash chain"
  from dropWindowHash_result [of chain after] obtain n' where n': "n' \<le> length ?o"
    and eq: "dropWindowHash after chain =
       chain\<lparr>storedWindowHash := (\<lambda>k. if k \<in> set (drop n' ?o) then None else ?m k),
             windowOrder := take n' ?o\<rparr>"
    by blast
  have d: "distinct ?o" and s: "set ?o = dom ?m" and l: "length ?o \<le> unat (storedWindowHashCap chain)"
    using assms windowStoreInv_distinct by (auto simp: windowStoreInv_def)
  have "distinct (take n' ?o @ drop n' ?o)" using d by simp
  then have disj: "set (take n' ?o) \<inter> set (drop n' ?o) = {}" and dt: "distinct (take n' ?o)"
    unfolding distinct_append by auto
  have un: "set (take n' ?o) \<union> set (drop n' ?o) = set ?o"
    by (metis append_take_drop_id set_append)
  have dom: "dom (\<lambda>k. if k \<in> set (drop n' ?o) then None else ?m k) = set (take n' ?o)"
    using disj un s by (auto simp: dom_def split: if_splits)
  have "card (set (take n' ?o)) = length (take n' ?o)" using dt by (rule distinct_card)
  then show ?thesis
    using n' l by (simp add: eq windowStoreInv_def dom)
qed

lemma storeWindowHash_inv:
  assumes cap: "1 \<le> storedWindowHashCap chain" and inv: "windowStoreInv chain"
  shows "\<exists>chain'. storeWindowHash e h chain = Inr chain' \<and> windowStoreInv chain' \<and>
           storedWindowHashCap chain' = storedWindowHashCap chain \<and>
           (windowOrder chain' = windowOrder chain \<or>
            windowOrder chain' = windowOrder chain @ [e] \<or>
            windowOrder chain' = tl (windowOrder chain) @ [e])"
proof -
  let ?o = "windowOrder chain" and ?m = "storedWindowHash chain"
  have d: "distinct ?o" and s: "set ?o = dom ?m" and l: "length ?o \<le> unat (storedWindowHashCap chain)"
    and c: "length ?o = card (dom ?m)"
    using inv windowStoreInv_distinct by (auto simp: windowStoreInv_def)
  have ul: "unat (of_nat (length ?o) :: u64) = length ?o"
    using l unat_lt64 [of "storedWindowHashCap chain"] by (simp add: unat_of_nat64)
  show ?thesis
  proof (cases "?m e")
    case (Some a)
    then have "insert e (dom ?m) = dom ?m" by auto
    then show ?thesis using Some inv
      by (simp add: storeWindowHash_def windowStoreInv_def)
  next
    case None
    then have notin: "e \<notin> set ?o" using s by auto
    show ?thesis
    proof (cases "(of_nat (length ?o) :: u64) \<ge> storedWindowHashCap chain")
      case False
      then have lt: "length ?o < unat (storedWindowHashCap chain)"
        using ul by (simp add: word_le_nat_alt)
      have "card (insert e (dom ?m)) = Suc (card (dom ?m))"
        using None by (intro card_insert_disjoint) auto
      then show ?thesis using None False lt s c
        by (simp add: storeWindowHash_def windowStoreInv_def)
    next
      case True
      have "unat (storedWindowHashCap chain) \<ge> 1" using cap by (simp add: word_le_nat_alt)
      then have "length ?o \<ge> 1" using True ul by (simp add: word_le_nat_alt)
      then obtain old rest where o: "?o = old # rest" by (cases ?o) auto
      have oldnot: "old \<notin> set rest" "e \<notin> set rest" "e \<noteq> old" using d notin o by auto
      have dom: "insert e (dom ?m - {old}) = insert e (set rest)"
        using s [symmetric] o oldnot by auto
      have "card (insert e (set rest)) = Suc (length rest)"
        using d o oldnot by (simp add: distinct_card)
      then show ?thesis using None True o l
        by (simp add: storeWindowHash_def windowStoreInv_def dom)
    qed
  qed
qed

text \<open>
  C3.  In a chain state whose capacity is at least 1 and which satisfies the three
  conditions of \<open>windowStoreInv\<close>, \<open>storeWindowHash\<close> returns without a panic, and both
  \<open>storeWindowHash\<close> and \<open>dropWindowHash\<close> keep the three conditions and the capacity.
  The order of insertion is kept: \<open>storeWindowHash\<close> leaves the slice as it is or
  appends the new key, after dropping the oldest key when the store is full, and
  \<open>dropWindowHash\<close> leaves a prefix of the slice.  After a \<open>storeWindowHash\<close> the
  number of entries is at most the capacity.
\<close>

theorem window_store_invariant:
  assumes "1 \<le> storedWindowHashCap chain" and "windowStoreInv chain"
  shows "(\<exists>chain'. storeWindowHash e h chain = Inr chain' \<and> windowStoreInv chain' \<and>
            card (dom (storedWindowHash chain')) \<le> unat (storedWindowHashCap chain) \<and>
            storedWindowHashCap chain' = storedWindowHashCap chain \<and>
            (windowOrder chain' = windowOrder chain \<or>
             windowOrder chain' = windowOrder chain @ [e] \<or>
             windowOrder chain' = tl (windowOrder chain) @ [e])) \<and>
         windowStoreInv (dropWindowHash after chain) \<and>
         storedWindowHashCap (dropWindowHash after chain) = storedWindowHashCap chain \<and>
         (\<exists>n. windowOrder (dropWindowHash after chain) = take n (windowOrder chain))"
proof -
  from storeWindowHash_inv [OF assms, of e h] obtain chain' where
    c: "storeWindowHash e h chain = Inr chain'" "windowStoreInv chain'"
      "storedWindowHashCap chain' = storedWindowHashCap chain"
      "windowOrder chain' = windowOrder chain \<or> windowOrder chain' = windowOrder chain @ [e] \<or>
       windowOrder chain' = tl (windowOrder chain) @ [e]"
    by blast
  have "card (dom (storedWindowHash chain')) \<le> unat (storedWindowHashCap chain)"
    using c(2,3) by (simp add: windowStoreInv_def)
  with c have store: "\<exists>chain'. storeWindowHash e h chain = Inr chain' \<and> windowStoreInv chain' \<and>
            card (dom (storedWindowHash chain')) \<le> unat (storedWindowHashCap chain) \<and>
            storedWindowHashCap chain' = storedWindowHashCap chain \<and>
            (windowOrder chain' = windowOrder chain \<or>
             windowOrder chain' = windowOrder chain @ [e] \<or>
             windowOrder chain' = tl (windowOrder chain) @ [e])"
    by blast
  from dropWindowHash_result [of chain after] obtain n' where
    d: "dropWindowHash after chain =
       chain\<lparr>storedWindowHash := (\<lambda>k. if k \<in> set (drop n' (windowOrder chain)) then None
                                      else storedWindowHash chain k),
             windowOrder := take n' (windowOrder chain)\<rparr>"
    by blast
  have "storedWindowHashCap (dropWindowHash after chain) = storedWindowHashCap chain"
    and "\<exists>n. windowOrder (dropWindowHash after chain) = take n (windowOrder chain)"
    by (simp_all add: d) blast
  with store dropWindowHash_inv [OF assms(2), of after] show ?thesis by blast
qed

lemma ex_store: "storeWindowHash 40 ''h40'' exampleChain =
    Inr (exampleChain\<lparr>windowOrder := [20, 30, 40],
       storedWindowHash := [20 \<mapsto> ''h20'', 30 \<mapsto> ''h30'', 40 \<mapsto> ''h40'']\<rparr>)"
  by (auto simp add: storeWindowHash_def exampleChain_def word_le_nat_alt fun_upd_def)

theorem window_store_invariant_witness:
  "1 \<le> storedWindowHashCap exampleChain \<and> windowStoreInv exampleChain \<and>
   (\<exists>chain'. storeWindowHash 40 ''h40'' exampleChain = Inr chain' \<and> windowStoreInv chain' \<and>
      windowOrder chain' = [20, 30, 40]) \<and>
   windowStoreInv (dropWindowHash 15 exampleChain) \<and>
   windowOrder (dropWindowHash 15 exampleChain) = [10]"
proof -
  have h1: "1 \<le> storedWindowHashCap exampleChain"
    by (simp add: exampleChain_def word_le_nat_alt)
  have h2: "windowStoreInv exampleChain"
    by (auto simp add: exampleChain_def windowStoreInv_def)
  have d: "windowOrder (dropWindowHash 15 exampleChain) = [10]"
    by (simp add: dropWindowHash_def exampleChain_def dropWalk.simps)
  show ?thesis
    using window_store_invariant [OF h1 h2, of 40 "''h40''" 15] h1 h2 d
    by (auto simp: ex_store)
qed

subsection \<open>The reorg resolver\<close>

lemma dropWindowHash_sorted:
  assumes srt: "sorted (windowOrder chain)"
    and keys: "dom (storedWindowHash chain) \<subseteq> set (windowOrder chain)"
  shows "storedWindowHash (dropWindowHash a chain) = storedWindowHash chain |` {k. k \<le> a}"
proof -
  let ?o = "windowOrder chain" and ?m = "storedWindowHash chain"
  from dropWindowHash_result [of chain a] obtain n' where n': "n' \<le> length ?o"
    and eq: "dropWindowHash a chain =
       chain\<lparr>storedWindowHash := (\<lambda>k. if k \<in> set (drop n' ?o) then None else ?m k),
             windowOrder := take n' ?o\<rparr>"
    and gt: "\<forall>k \<in> set (drop n' ?o). a < k"
    and le: "0 < n' \<longrightarrow> \<not> a < ?o ! (n' - 1)"
    by blast
  have tk: "k \<le> a" if "k \<in> set (take n' ?o)" for k
  proof -
    from that obtain j where j: "j < n'" "j < length ?o" "k = ?o ! j"
      by (auto simp: in_set_conv_nth)
    then have "?o ! j \<le> ?o ! (n' - 1)"
      using srt n' by (intro sorted_nth_mono) auto
    moreover have "?o ! (n' - 1) \<le> a" using le j by auto
    ultimately show ?thesis using j by simp
  qed
  have un: "set ?o = set (take n' ?o) \<union> set (drop n' ?o)"
    by (metis append_take_drop_id set_append)
  have "(if k \<in> set (drop n' ?o) then None else ?m k) = (?m |` {k. k \<le> a}) k" for k
  proof (cases "k \<le> a")
    case True
    then have "k \<notin> set (drop n' ?o)" using gt by auto
    then show ?thesis using True by (simp add: restrict_map_def)
  next
    case False
    have "?m k = None" if "k \<notin> set (drop n' ?o)"
    proof (rule ccontr)
      assume "?m k \<noteq> None"
      then have "k \<in> set ?o" using keys by auto
      then have "k \<in> set (take n' ?o)" using that un by auto
      then show False using tk False by auto
    qed
    then show ?thesis using False by (auto simp: restrict_map_def)
  qed
  then show ?thesis by (simp add: eq)
qed

lemma reorgLoop_spec:
  assumes ok: "\<forall>s. \<exists>b. GetBlock s = Inr b" and nc: "\<forall>k. \<not> ctxDone k"
  shows "case reorgLoop GetBlock ctxDone chain i a of
           Inl (r, chain') \<Rightarrow>
             r \<in> set (spec_candidates (unat (storedWindowHashCap chain) - unat i)
                        (uint64 (RangeSize (opts chain))) a) \<and>
             (\<exists>b. GetBlock (Uint64ToHexQty (r + 1)) = Inr b \<and>
                  ParentHash b = lookupHash (storedWindowHash chain) r) \<and>
             chain' = dropWindowHash r chain
         | Inr x \<Rightarrow>
             (\<forall>c \<in> set (spec_candidates (unat (storedWindowHashCap chain) - unat i)
                          (uint64 (RangeSize (opts chain))) a).
                \<not> (\<exists>b. GetBlock (Uint64ToHexQty (c + 1)) = Inr b \<and>
                     ParentHash b = lookupHash (storedWindowHash chain) c))"
  using ok nc
proof (induction GetBlock ctxDone chain i a rule: reorgLoop.induct)
  case (1 GetBlock ctxDone chain i ancestor)
  let ?cap = "storedWindowHashCap chain" and ?rs = "uint64 (RangeSize (opts chain))"
  show ?case
  proof (cases "i < ?cap")
    case False
    then have "unat ?cap - unat i = 0" by (simp add: word_less_nat_alt)
    moreover have "reorgLoop GetBlock ctxDone chain i ancestor = Inr ancestor"
      using False by (subst reorgLoop.simps) simp
    ultimately show ?thesis by simp
  next
    case True
    then have u: "unat (i + 1) = unat i + 1" "unat i < unat ?cap" by unat_arith+
    then have n: "unat ?cap - unat i = Suc (unat ?cap - unat (i + 1))" by simp
    from "1.prems" obtain blk where blk: "GetBlock (Uint64ToHexQty (ancestor + 1)) = Inr blk"
      by blast
    show ?thesis
    proof (cases "ParentHash blk = lookupHash (storedWindowHash chain) ancestor")
      case m: True
      have "reorgLoop GetBlock ctxDone chain i ancestor = Inl (ancestor, dropWindowHash ancestor chain)"
        using True blk m by (subst reorgLoop.simps) simp
      then show ?thesis using blk m by (simp add: n)
    next
      case m: False
      show ?thesis
      proof (cases "ancestor < ?rs")
        case lt: True
        have "reorgLoop GetBlock ctxDone chain i ancestor = Inr 0"
          using True blk m lt by (subst reorgLoop.simps) simp
        then show ?thesis using blk m lt by (simp add: n)
      next
        case lt: False
        have eq: "reorgLoop GetBlock ctxDone chain i ancestor =
            reorgLoop GetBlock ctxDone chain (i + 1) (ancestor - ?rs)"
          using True blk m lt "1.prems" by (subst reorgLoop.simps) (simp add: Let_def)
        have ih: "case reorgLoop GetBlock ctxDone chain (i + 1) (ancestor - ?rs) of
           Inl (r, chain') \<Rightarrow>
             r \<in> set (spec_candidates (unat ?cap - unat (i + 1)) ?rs (ancestor - ?rs)) \<and>
             (\<exists>b. GetBlock (Uint64ToHexQty (r + 1)) = Inr b \<and>
                  ParentHash b = lookupHash (storedWindowHash chain) r) \<and>
             chain' = dropWindowHash r chain
         | Inr x \<Rightarrow>
             (\<forall>c \<in> set (spec_candidates (unat ?cap - unat (i + 1)) ?rs (ancestor - ?rs)).
                \<not> (\<exists>b. GetBlock (Uint64ToHexQty (c + 1)) = Inr b \<and>
                     ParentHash b = lookupHash (storedWindowHash chain) c))"
          using True blk m lt "1.prems" by (intro "1.IH" [OF True refl blk m lt refl]) auto
        show ?thesis
          unfolding eq n using ih blk m lt
          by (auto split: sum.splits prod.splits)
      qed
    qed
  qed
qed


lemma uint_fallbackOf: "uint (fallbackOf chain) = spec_fallback chain"
proof (cases "cursor chain > hardFallbackBlocks chain")
  case True
  then have "uint (cursor chain - hardFallbackBlocks chain) = uint (cursor chain) - uint (hardFallbackBlocks chain)"
    by (simp add: uint_sub_lem [THEN iffD1] word_less_def)
  moreover have "uint (hardFallbackBlocks chain) < uint (cursor chain)" using True by (simp add: word_less_def)
  ultimately show ?thesis using True by (simp add: fallbackOf_def spec_fallback_def)
next
  case False
  then have "uint (cursor chain) \<le> uint (hardFallbackBlocks chain)" by (simp add: word_less_def not_less)
  then show ?thesis using False by (simp add: fallbackOf_def spec_fallback_def)
qed

text \<open>
  C2, amended.  In a chain state whose \<open>windowOrder\<close> is ascending and holds every key
  of \<open>storedWindowHash\<close>, \<open>handleReorg\<close>, run without cancellation and with every header
  fetch succeeding, returns either one of the values \<open>a\<close> of the search order for which
  the header at height \<open>a + 1\<close> has the parent hash stored at key \<open>a\<close>, or, when no value
  of the search order has that property, the fallback \<open>max(cursor - hardFallbackBlocks, 0)\<close>;
  in both cases the store is left with exactly its entries at keys up to the
  returned value.
\<close>

theorem handleReorg_ancestor_or_fallback:
  assumes ok: "\<forall>s. \<exists>b. GetBlock s = Inr b" and nc: "\<forall>k. \<not> ctxDone k"
    and srt: "sorted (windowOrder chain)"
    and keys: "dom (storedWindowHash chain) \<subseteq> set (windowOrder chain)"
  shows "case handleReorg GetBlock ctxDone chain of
           (r, chain') \<Rightarrow>
             ((r \<in> set (spec_candidates (unat (storedWindowHashCap chain))
                          (uint64 (RangeSize (opts chain))) (cursor chain)) \<and>
               (\<exists>b. GetBlock (Uint64ToHexQty (r + 1)) = Inr b \<and>
                    ParentHash b = lookupHash (storedWindowHash chain) r)) \<or>
              ((\<forall>c \<in> set (spec_candidates (unat (storedWindowHashCap chain))
                             (uint64 (RangeSize (opts chain))) (cursor chain)).
                  \<not> (\<exists>b. GetBlock (Uint64ToHexQty (c + 1)) = Inr b \<and>
                       ParentHash b = lookupHash (storedWindowHash chain) c)) \<and>
               uint r = spec_fallback chain)) \<and>
             storedWindowHash chain' = storedWindowHash chain |` {k. k \<le> r} \<and>
             (\<forall>k \<in> dom (storedWindowHash chain'). k \<le> r)"
proof (cases "reorgLoop GetBlock ctxDone chain 0 (cursor chain)")
  case (Inl p)
  obtain r chain' where p: "p = (r, chain')" by (cases p)
  from reorgLoop_spec [OF ok nc, of chain 0 "cursor chain"] Inl p
  have 1: "r \<in> set (spec_candidates (unat (storedWindowHashCap chain))
                        (uint64 (RangeSize (opts chain))) (cursor chain))"
    and 2: "\<exists>b. GetBlock (Uint64ToHexQty (r + 1)) = Inr b \<and>
                  ParentHash b = lookupHash (storedWindowHash chain) r"
    and 3: "chain' = dropWindowHash r chain"
    by simp_all
  have 4: "storedWindowHash chain' = storedWindowHash chain |` {k. k \<le> r}"
    unfolding 3 by (rule dropWindowHash_sorted [OF srt keys])
  have h: "handleReorg GetBlock ctxDone chain = (r, chain')"
    by (simp add: handleReorg_def Inl p)
  show ?thesis unfolding h using 1 2 4 by (auto simp: restrict_map_def split: if_splits)
next
  case (Inr x)
  from reorgLoop_spec [OF ok nc, of chain 0 "cursor chain"] Inr
  have 1: "\<forall>c \<in> set (spec_candidates (unat (storedWindowHashCap chain))
                             (uint64 (RangeSize (opts chain))) (cursor chain)).
                  \<not> (\<exists>b. GetBlock (Uint64ToHexQty (c + 1)) = Inr b \<and>
                       ParentHash b = lookupHash (storedWindowHash chain) c)"
    by simp
  have h: "handleReorg GetBlock ctxDone chain =
      (fallbackOf chain, dropWindowHash (fallbackOf chain) chain)"
    by (simp add: handleReorg_def Inr Let_def)
  have 4: "storedWindowHash (dropWindowHash (fallbackOf chain) chain) =
      storedWindowHash chain |` {k. k \<le> fallbackOf chain}"
    by (rule dropWindowHash_sorted [OF srt keys])
  show ?thesis unfolding h using 1 4 uint_fallbackOf [of chain]
    by (auto simp: restrict_map_def split: if_splits)
qed

lemma hex31: "Uint64ToHexQty 31 = ''0x1f''"
  by (simp add: Uint64ToHexQty_def FormatUint16_def formatHex.simps hexDigit_def)

lemma hex21: "Uint64ToHexQty 21 = ''0x15''"
  by (simp add: Uint64ToHexQty_def FormatUint16_def formatHex.simps hexDigit_def)

lemma handleReorg_example:
  "handleReorg exampleGetBlockFork (\<lambda>k. False) exampleChain =
     (20, exampleChain\<lparr>storedWindowHash := [10 \<mapsto> ''h10'', 20 \<mapsto> ''h20''], windowOrder := [10, 20]\<rparr>)"
  by (auto simp add: handleReorg_def reorgLoop.simps exampleChain_def exampleGetBlockFork_def
      exampleOptions_def lookupHash_def dropWindowHash_def dropWalk.simps fallbackOf_def uint64_def
      hex31 hex21 fun_upd_def)

theorem handleReorg_ancestor_or_fallback_witness:
  "(\<forall>s. \<exists>b. exampleGetBlockFork s = Inr b) \<and> (\<forall>k. \<not> (\<lambda>k. False) k) \<and>
   sorted (windowOrder exampleChain) \<and>
   dom (storedWindowHash exampleChain) \<subseteq> set (windowOrder exampleChain) \<and>
   fst (handleReorg exampleGetBlockFork (\<lambda>k. False) exampleChain) = 20 \<and>
   storedWindowHash (snd (handleReorg exampleGetBlockFork (\<lambda>k. False) exampleChain)) =
     storedWindowHash exampleChain |` {k. k \<le> 20}"
proof -
  have h1: "\<forall>s. \<exists>b. exampleGetBlockFork s = Inr b" by (simp add: exampleGetBlockFork_def)
  have h2: "\<forall>k. \<not> (\<lambda>k. False) k" by simp
  have h3: "sorted (windowOrder exampleChain)" by (simp add: exampleChain_def)
  have h4: "dom (storedWindowHash exampleChain) \<subseteq> set (windowOrder exampleChain)"
    by (simp add: exampleChain_def)
  show ?thesis
    using handleReorg_ancestor_or_fallback [OF h1 h2 h3 h4] h1 h3 h4
    by (simp add: handleReorg_example)
qed

text \<open>
  C2, as the claim states it for every chain state, fails where \<open>windowOrder\<close> is not
  ascending: \<open>dropWindowHash\<close> stops at the first element from the tail that is not
  above the ancestor.  With the order \<open>[100, 50]\<close> and the ancestor 50 found, the entry
  at key 100 stays in the store.
\<close>

theorem handleReorg_unsorted_keeps_later_entry:
  "fst (handleReorg exampleGetBlock50 (\<lambda>k. False) exampleUnsortedChain) = 50 \<and>
   (\<exists>b. exampleGetBlock50 (Uint64ToHexQty (50 + 1)) = Inr b \<and>
        ParentHash b = lookupHash (storedWindowHash exampleUnsortedChain) 50) \<and>
   (50 :: u64) < 100 \<and>
   storedWindowHash (snd (handleReorg exampleGetBlock50 (\<lambda>k. False) exampleUnsortedChain)) 100
     = Some ''h100''"
  by (simp add: handleReorg_def reorgLoop.simps exampleUnsortedChain_def exampleGetBlock50_def
      lookupHash_def dropWindowHash_def dropWalk.simps fallbackOf_def)

subsection \<open>The fetch planner\<close>

lemma planLoop_nat:
  assumes r: "0 < unat rs" and nw: "unat target + unat rs < 2 ^ 64"
    and nc: "\<forall>js. \<not> ctxDone js"
  shows "\<exists>js. planLoop ctxDone target rs frm acc = Some (acc @ js) \<and>
           (\<forall>i < length js.
              unat (rangeFrom (js ! i)) = unat frm + i * unat rs \<and>
              unat (rangeFrom (js ! i)) \<le> unat target \<and>
              unat (rangeTo (js ! i)) = min (unat (rangeFrom (js ! i)) + unat rs - 1) (unat target)) \<and>
           unat target < unat frm + length js * unat rs"
proof (induction "unat target + 1 - unat frm" arbitrary: frm acc rule: less_induct)
  case less
  show ?case
  proof (cases "frm \<le> target")
    case False
    then have "planLoop ctxDone target rs frm acc = Some (acc @ [])"
      by (subst planLoop.simps) simp
    moreover have "unat target < unat frm" using False by (simp add: word_le_nat_alt)
    ultimately show ?thesis by (intro exI [of _ "[]"]) simp
  next
    case True
    then have le: "unat frm \<le> unat target" by (simp add: word_le_nat_alt)
    have u1: "unat (frm + rs) = unat frm + unat rs"
      using le nw by (simp add: unat_add_lem [THEN iffD1])
    have u2: "unat (frm + rs - 1) = unat frm + unat rs - 1"
    proof -
      have "1 \<le> frm + rs" using u1 r by (simp add: word_le_nat_alt)
      then show ?thesis using u1 by (simp add: unat_sub)
    qed
    define to where "to = (if frm + rs - 1 > target then target else frm + rs - 1)"
    have uto: "unat to = min (unat frm + unat rs - 1) (unat target)"
      using u2 by (auto simp: to_def word_less_nat_alt)
    let ?j = "\<lparr>rangeFrom = frm, rangeTo = to\<rparr>"
    have step: "planLoop ctxDone target rs frm acc = planLoop ctxDone target rs (frm + rs) (acc @ [?j])"
      using True nc by (subst planLoop.simps) (simp add: Let_def to_def)
    have "unat target + 1 - unat (frm + rs) < unat target + 1 - unat frm"
      using u1 r le by simp
    from less [OF this, of "acc @ [?j]"] obtain js where
      js: "planLoop ctxDone target rs (frm + rs) (acc @ [?j]) = Some ((acc @ [?j]) @ js)"
      and sh: "\<forall>i < length js.
              unat (rangeFrom (js ! i)) = unat (frm + rs) + i * unat rs \<and>
              unat (rangeFrom (js ! i)) \<le> unat target \<and>
              unat (rangeTo (js ! i)) = min (unat (rangeFrom (js ! i)) + unat rs - 1) (unat target)"
      and st: "unat target < unat (frm + rs) + length js * unat rs"
      by blast
    have "\<forall>i < length (?j # js).
              unat (rangeFrom ((?j # js) ! i)) = unat frm + i * unat rs \<and>
              unat (rangeFrom ((?j # js) ! i)) \<le> unat target \<and>
              unat (rangeTo ((?j # js) ! i)) = min (unat (rangeFrom ((?j # js) ! i)) + unat rs - 1) (unat target)"
    proof (intro allI impI)
      fix i assume i: "i < length (?j # js)"
      show "unat (rangeFrom ((?j # js) ! i)) = unat frm + i * unat rs \<and>
              unat (rangeFrom ((?j # js) ! i)) \<le> unat target \<and>
              unat (rangeTo ((?j # js) ! i)) = min (unat (rangeFrom ((?j # js) ! i)) + unat rs - 1) (unat target)"
      proof (cases i)
        case 0
        then show ?thesis using le uto by simp
      next
        case (Suc k)
        then have "k < length js" using i by simp
        from sh [rule_format, OF this] show ?thesis using Suc u1 by (simp add: algebra_simps)
      qed
    qed
    moreover have "unat target < unat frm + length (?j # js) * unat rs"
      using st u1 by (simp add: algebra_simps)
    moreover have "planLoop ctxDone target rs frm acc = Some (acc @ (?j # js))"
      using step js by simp
    ultimately show ?thesis by blast
  qed
qed

lemma ranges_props:
  fixes js :: "blockRange list" and c t :: u64 and R :: nat
  assumes R: "0 < R"
    and sh: "\<forall>i < length js.
              unat (rangeFrom (js ! i)) = unat c + 1 + i * R \<and>
              unat (rangeFrom (js ! i)) \<le> unat t \<and>
              unat (rangeTo (js ! i)) = min (unat (rangeFrom (js ! i)) + R - 1) (unat t)"
    and st: "unat t < unat c + 1 + length js * R"
  shows "\<forall>i < length js. rangeFrom (js ! i) \<le> rangeTo (js ! i)"
    and "\<forall>i j. i < j \<and> j < length js \<longrightarrow>
           {rangeFrom (js ! i)..rangeTo (js ! i)} \<inter> {rangeFrom (js ! j)..rangeTo (js ! j)} = {}"
    and "(\<Union>r \<in> set js. {rangeFrom r..rangeTo r}) = {c<..t}"
    and "t \<le> c \<longrightarrow> js = []"
    and "c < t \<and> unat t - unat c < R \<longrightarrow> length js = 1"
proof -
  have f: "unat (rangeFrom (js ! i)) = unat c + 1 + i * R"
    and ft: "unat (rangeFrom (js ! i)) \<le> unat t"
    and e: "unat (rangeTo (js ! i)) = min (unat c + 1 + i * R + R - 1) (unat t)"
    if "i < length js" for i
    using sh that by auto
  show a: "\<forall>i < length js. rangeFrom (js ! i) \<le> rangeTo (js ! i)"
  proof (intro allI impI)
    fix i assume i: "i < length js"
    show "rangeFrom (js ! i) \<le> rangeTo (js ! i)"
      using f [OF i] ft [OF i] e [OF i] R by (simp add: word_le_nat_alt)
  qed
  show "\<forall>i j. i < j \<and> j < length js \<longrightarrow>
           {rangeFrom (js ! i)..rangeTo (js ! i)} \<inter> {rangeFrom (js ! j)..rangeTo (js ! j)} = {}"
  proof (intro allI impI)
    fix i j assume ij: "i < j \<and> j < length js"
    then have i: "i < length js" and j: "j < length js" by auto
    have "Suc i * R \<le> j * R" using ij by (intro mult_le_mono1) simp
    then have "unat c + 1 + i * R + R - 1 < unat c + 1 + j * R" using R by simp
    then have lt: "unat (rangeTo (js ! i)) < unat (rangeFrom (js ! j))"
      using f [OF j] e [OF i] by linarith
    show "{rangeFrom (js ! i)..rangeTo (js ! i)} \<inter> {rangeFrom (js ! j)..rangeTo (js ! j)} = {}"
    proof (rule equals0I)
      fix x assume "x \<in> {rangeFrom (js ! i)..rangeTo (js ! i)} \<inter> {rangeFrom (js ! j)..rangeTo (js ! j)}"
      then have "x \<le> rangeTo (js ! i)" "rangeFrom (js ! j) \<le> x"
        unfolding Int_iff atLeastAtMost_iff by blast+
      then have "unat x \<le> unat (rangeTo (js ! i))" "unat (rangeFrom (js ! j)) \<le> unat x"
        by (simp_all add: word_le_nat_alt)
      with lt show False by simp
    qed
  qed
  show "(\<Union>r \<in> set js. {rangeFrom r..rangeTo r}) = {c<..t}"
  proof (intro set_eqI iffI)
    fix x assume "x \<in> (\<Union>r \<in> set js. {rangeFrom r..rangeTo r})"
    then obtain i where i: "i < length js" and x: "rangeFrom (js ! i) \<le> x" "x \<le> rangeTo (js ! i)"
      by (auto simp: in_set_conv_nth)
    have "unat c < unat x" using x(1) f [OF i] by (simp add: word_le_nat_alt)
    moreover have "unat x \<le> unat t" using x(2) e [OF i] by (simp add: word_le_nat_alt)
    ultimately show "x \<in> {c<..t}" by (simp add: word_le_nat_alt word_less_nat_alt)
  next
    fix x assume "x \<in> {c<..t}"
    then have x: "unat c < unat x" "unat x \<le> unat t"
      by (simp_all add: word_le_nat_alt word_less_nat_alt)
    define d where "d = unat x - unat c - 1"
    define i where "i = d div R"
    have xd: "unat x = unat c + 1 + d" using x by (simp add: d_def)
    have lo: "i * R \<le> d" by (simp add: i_def)
    have hi: "d < i * R + R" using R
      by (metis i_def add.commute div_mult_mod_eq add_less_cancel_left mod_less_divisor mult.commute)
    have i: "i < length js"
    proof (rule ccontr)
      assume "\<not> i < length js"
      then have "length js * R \<le> i * R" by (intro mult_le_mono1) simp
      then show False using lo xd x(2) st by linarith
    qed
    have "rangeFrom (js ! i) \<le> x" using f [OF i] lo xd by (simp add: word_le_nat_alt)
    moreover have "x \<le> rangeTo (js ! i)" using e [OF i] hi xd x(2) by (simp add: word_le_nat_alt)
    ultimately have "x \<in> {rangeFrom (js ! i)..rangeTo (js ! i)}" by simp
    then show "x \<in> (\<Union>r \<in> set js. {rangeFrom r..rangeTo r})"
      using i nth_mem by blast
  qed
  show "t \<le> c \<longrightarrow> js = []"
  proof
    assume tc: "t \<le> c"
    show "js = []"
    proof (rule ccontr)
      assume "js \<noteq> []"
      then have "0 < length js" by simp
      from f [OF this] ft [OF this] tc show False by (simp add: word_le_nat_alt)
    qed
  qed
  show "c < t \<and> unat t - unat c < R \<longrightarrow> length js = 1"
  proof
    assume h: "c < t \<and> unat t - unat c < R"
    then have ct: "unat c < unat t" and tr: "unat t - unat c < R" by (simp_all add: word_less_nat_alt)
    have "0 < length js" using st ct by (cases js) auto
    moreover have "\<not> 1 < length js"
    proof
      assume 1: "1 < length js"
      from f [OF 1] ft [OF 1] tr ct show False by simp
    qed
    ultimately show "length js = 1" by linarith
  qed
qed


text \<open>
  C1, amended.  For every cursor below \<open>2^64 - 1\<close>, every target and every range size
  \<open>rangeSize > 0\<close> with \<open>target + rangeSize < 2^64\<close>, the planner, when not cancelled,
  returns, and the ranges it emits have \<open>from = cursor + 1 + i * rangeSize\<close> and
  \<open>to = min(from + rangeSize - 1, target)\<close> for \<open>i = 0, 1, \<dots>\<close>, stopping at the first
  \<open>from\<close> above the target; each has \<open>from \<le> to\<close>, they are pairwise disjoint and they
  cover exactly the interval \<open>(cursor, target]\<close>.  When \<open>target \<le> cursor\<close> no range is
  emitted, and when \<open>cursor < target\<close> and \<open>rangeSize > target - cursor\<close> exactly the
  range \<open>[cursor + 1, target]\<close> is.
\<close>

theorem planJobs_ranges:
  assumes rs: "0 < RangeSize (opts chain)" "RangeSize (opts chain) < 2 ^ 63"
    and nc: "\<forall>js. \<not> ctxDone js"
    and c: "unat (cursor chain) + 1 < 2 ^ 64"
    and t: "unat target + nat (RangeSize (opts chain)) < 2 ^ 64"
  shows "\<exists>jobs. planJobs ctxDone chain target = Some jobs \<and>
           (\<forall>i < length jobs.
              unat (rangeFrom (jobs ! i)) = unat (cursor chain) + 1 + i * nat (RangeSize (opts chain)) \<and>
              unat (rangeTo (jobs ! i)) =
                min (unat (rangeFrom (jobs ! i)) + nat (RangeSize (opts chain)) - 1) (unat target) \<and>
              rangeFrom (jobs ! i) \<le> rangeTo (jobs ! i)) \<and>
           unat target < unat (cursor chain) + 1 + length jobs * nat (RangeSize (opts chain)) \<and>
           (\<forall>i j. i < j \<and> j < length jobs \<longrightarrow>
              {rangeFrom (jobs ! i)..rangeTo (jobs ! i)} \<inter> {rangeFrom (jobs ! j)..rangeTo (jobs ! j)} = {}) \<and>
           (\<Union>r \<in> set jobs. {rangeFrom r..rangeTo r}) = {cursor chain<..target} \<and>
           (target \<le> cursor chain \<longrightarrow> jobs = []) \<and>
           (cursor chain < target \<and> unat target - unat (cursor chain) < nat (RangeSize (opts chain)) \<longrightarrow>
              jobs = [\<lparr>rangeFrom = cursor chain + 1, rangeTo = target\<rparr>])"
proof -
  define R where "R = nat (RangeSize (opts chain))"
  have R: "unat (uint64 (RangeSize (opts chain))) = R" "0 < R"
    using rs by (simp_all add: unat_uint64 R_def)
  have c1: "unat (cursor chain + 1) = unat (cursor chain) + 1"
    using c by (simp add: unat_add_lem [THEN iffD1])
  from planLoop_nat [of "uint64 (RangeSize (opts chain))" target ctxDone "cursor chain + 1" "[]"]
  obtain js where js: "planJobs ctxDone chain target = Some js"
    and sh: "\<forall>i < length js.
              unat (rangeFrom (js ! i)) = unat (cursor chain) + 1 + i * R \<and>
              unat (rangeFrom (js ! i)) \<le> unat target \<and>
              unat (rangeTo (js ! i)) = min (unat (rangeFrom (js ! i)) + R - 1) (unat target)"
    and st: "unat target < unat (cursor chain) + 1 + length js * R"
    using R t nc c1 by (auto simp: planJobs_def R_def)
  note p = ranges_props [OF R(2) sh st]
  have one: "js = [\<lparr>rangeFrom = cursor chain + 1, rangeTo = target\<rparr>]"
    if h: "cursor chain < target \<and> unat target - unat (cursor chain) < R"
  proof -
    from p(5) h have l: "length js = 1" by blast
    then have 0: "0 < length js" by simp
    from h have ct: "unat (cursor chain) < unat target" by (simp add: word_less_nat_alt)
    from sh [rule_format, OF 0] have "unat (rangeFrom (js ! 0)) = unat (cursor chain + 1)"
      and "unat (rangeTo (js ! 0)) = unat target"
      using c1 h ct by auto
    then have "rangeFrom (js ! 0) = cursor chain + 1" "rangeTo (js ! 0) = target"
      by (simp_all only: word_unat_eq_iff)
    then have "js ! 0 = \<lparr>rangeFrom = cursor chain + 1, rangeTo = target\<rparr>" by simp
    moreover from l obtain x where "js = [x]" by (cases js) auto
    ultimately show ?thesis by simp
  qed
  have "\<forall>i < length js.
          unat (rangeFrom (js ! i)) = unat (cursor chain) + 1 + i * R \<and>
          unat (rangeTo (js ! i)) = min (unat (rangeFrom (js ! i)) + R - 1) (unat target) \<and>
          rangeFrom (js ! i) \<le> rangeTo (js ! i)"
    using sh p(1) by blast
  with js st p(2,3,4) one show ?thesis unfolding R_def by blast
qed

lemma planJobs_example:
  "planJobs (\<lambda>js. False) exampleChain 55 =
     Some [\<lparr>rangeFrom = 31, rangeTo = 40\<rparr>, \<lparr>rangeFrom = 41, rangeTo = 50\<rparr>,
           \<lparr>rangeFrom = 51, rangeTo = 55\<rparr>]"
  by (simp add: planJobs_def planLoop.simps exampleChain_def exampleOptions_def uint64_def)

theorem planJobs_ranges_witness:
  "0 < RangeSize (opts exampleChain) \<and> RangeSize (opts exampleChain) < 2 ^ 63 \<and>
   (\<forall>js :: blockRange list. \<not> (\<lambda>js. False) js) \<and>
   unat (cursor exampleChain) + 1 < 2 ^ 64 \<and>
   unat (55 :: u64) + nat (RangeSize (opts exampleChain)) < 2 ^ 64 \<and>
   planJobs (\<lambda>js. False) exampleChain 55 =
     Some [\<lparr>rangeFrom = 31, rangeTo = 40\<rparr>, \<lparr>rangeFrom = 41, rangeTo = 50\<rparr>,
           \<lparr>rangeFrom = 51, rangeTo = 55\<rparr>] \<and>
   {31..40} \<union> ({41..50} \<union> {51..55}) = {cursor exampleChain<..(55 :: u64)}"
proof -
  have h1: "0 < RangeSize (opts exampleChain)" "RangeSize (opts exampleChain) < 2 ^ 63"
    by (simp_all add: exampleChain_def exampleOptions_def)
  have h2: "\<forall>js :: blockRange list. \<not> (\<lambda>js. False) js" by simp
  have h3: "unat (cursor exampleChain) + 1 < 2 ^ 64" by (simp add: exampleChain_def)
  have h4: "unat (55 :: u64) + nat (RangeSize (opts exampleChain)) < 2 ^ 64"
    by (simp add: exampleChain_def exampleOptions_def)
  from planJobs_ranges [OF h1 h2 h3 h4]
  have "(\<Union>r \<in> set [\<lparr>rangeFrom = 31, rangeTo = 40\<rparr>, \<lparr>rangeFrom = 41, rangeTo = 50\<rparr>,
           \<lparr>rangeFrom = 51, rangeTo = 55\<rparr>]. {rangeFrom r..rangeTo r}) = {cursor exampleChain<..(55 :: u64)}"
    unfolding planJobs_example by blast
  then show ?thesis using h1 h3 h4 by (simp add: planJobs_example)
qed

text \<open>
  C1, as the claim states it for every cursor, fails where \<open>cursor + 1\<close> wraps around:
  with the cursor at \<open>2^64 - 1\<close> the first \<open>from\<close> is 0, and although the target 5 is
  below the cursor the range \<open>[0, 5]\<close> is emitted.
\<close>

theorem planJobs_cursor_wraps:
  "(5 :: u64) \<le> 18446744073709551615 \<and>
   planJobs (\<lambda>js. False) (exampleChain\<lparr>cursor := 18446744073709551615\<rparr>) 5 =
     Some [\<lparr>rangeFrom = 0, rangeTo = 5\<rparr>]"
  by (simp add: planJobs_def planLoop.simps exampleChain_def exampleOptions_def uint64_def)

subsection \<open>Retry with backoff\<close>






subsection \<open>Fetching logs from receipts\<close>

lemma appendMatching_eq:
  "appendMatching chain logs allLogs = allLogs @ filter (\<lambda>l. matchesTopicFilter l chain) logs"
  by (induction logs arbitrary: allLogs) simp_all

lemma receiptLogs_eq:
  "receiptLogs chain receipts allLogs =
     allLogs @ filter (\<lambda>l. matchesTopicFilter l chain) (concat (map Logs receipts))"
  by (induction receipts arbitrary: allLogs) (simp_all add: appendMatching_eq)

lemma topicLoop_eq:
  "topicLoop lt ts \<longleftrightarrow> (\<exists>t \<in> set ts. lt \<noteq> [] \<and> hd lt = AnyString t)"
  by (induction ts) (auto split: list.splits go_any.splits)

lemma matchesTopicFilter_spec: "matchesTopicFilter l chain = spec_retained chain l"
  by (auto simp: matchesTopicFilter_def spec_retained_def topicLoop_eq)


lemma spec_blocks_Nil: "\<not> b \<le> to \<Longrightarrow> spec_blocks b to = []"
  by (simp add: spec_blocks_def word_le_nat_alt)

lemma spec_blocks_Cons:
  assumes "b \<le> to" and "unat to + 1 < 2 ^ 64"
  shows "spec_blocks b to = b # spec_blocks (b + 1) to"
proof -
  have le: "unat b \<le> unat to" using assms(1) by (simp add: word_le_nat_alt)
  then have "unat (b + 1) = Suc (unat b)"
    using assms(2) by (simp add: unat_add_lem [THEN iffD1])
  moreover have "[unat b..<Suc (unat to)] = unat b # [Suc (unat b)..<Suc (unat to)]"
    using le by (simp add: upt_conv_Cons)
  ultimately show ?thesis by (simp add: spec_blocks_def)
qed

lemma receiptsLoop_result:
  assumes nw: "unat to + 1 < 2 ^ 64"
    and ok: "\<forall>b. blockNum \<le> b \<and> b \<le> to \<longrightarrow> (\<exists>rs. GetBlockReceipts (Uint64ToHexQty b) = Inr rs)"
  shows "receiptsLoop GetBlockReceipts chain to blockNum allLogs calls =
     Some (Inr (allLogs @ filter (\<lambda>l. matchesTopicFilter l chain)
                   (concat (map (spec_blockLogs GetBlockReceipts) (spec_blocks blockNum to)))),
           calls @ map Uint64ToHexQty (spec_blocks blockNum to))"
  using ok
proof (induction "unat to + 1 - unat blockNum" arbitrary: blockNum allLogs calls rule: less_induct)
  case less
  show ?case
  proof (cases "blockNum \<le> to")
    case False
    then show ?thesis by (subst receiptsLoop.simps) (simp add: spec_blocks_Nil)
  next
    case True
    then have le: "unat blockNum \<le> unat to" by (simp add: word_le_nat_alt)
    then have u: "unat (blockNum + 1) = Suc (unat blockNum)"
      using nw by (simp add: unat_add_lem [THEN iffD1])
    from less.prems True obtain rs where rs: "GetBlockReceipts (Uint64ToHexQty blockNum) = Inr rs"
      by blast
    have m: "unat to + 1 - unat (blockNum + 1) < unat to + 1 - unat blockNum" using u le by simp
    have ok': "\<forall>b. blockNum + 1 \<le> b \<and> b \<le> to \<longrightarrow> (\<exists>rs. GetBlockReceipts (Uint64ToHexQty b) = Inr rs)"
    proof (intro allI impI)
      fix b assume b: "blockNum + 1 \<le> b \<and> b \<le> to"
      then have "blockNum \<le> b" using u by (simp add: word_le_nat_alt)
      with b less.prems show "\<exists>rs. GetBlockReceipts (Uint64ToHexQty b) = Inr rs" by blast
    qed
    have "receiptsLoop GetBlockReceipts chain to blockNum allLogs calls =
        receiptsLoop GetBlockReceipts chain to (blockNum + 1) (receiptLogs chain rs allLogs)
          (calls @ [Uint64ToHexQty blockNum])"
      using True rs by (subst receiptsLoop.simps) (simp add: Let_def)
    also note less.hyps [OF m ok']
    finally show ?thesis
      using rs by (simp add: spec_blocks_Cons [OF True nw] receiptLogs_eq spec_blockLogs_def)
  qed
qed

text \<open>
  C8, amended.  For every range \<open>[from, to]\<close> with \<open>to < 2^64 - 1\<close> whose calls of
  \<open>GetBlockReceipts\<close> all succeed, \<open>fetchLogsFromReceipts\<close> returns; it has called
  \<open>GetBlockReceipts\<close> for each block from \<open>from\<close> to \<open>to\<close> in ascending order and for no
  other, and its result is the flattened logs of every receipt, in order, cut down to
  the logs whose first topic is a string equal to an entry of \<open>chain.topics\<close>, or to
  all of them when the configured topic list is empty.
\<close>

theorem fetchLogsFromReceipts_retains:
  assumes nw: "unat to + 1 < 2 ^ 64"
    and ok: "\<forall>b. from \<le> b \<and> b \<le> to \<longrightarrow> (\<exists>rs. GetBlockReceipts (Uint64ToHexQty b) = Inr rs)"
  shows "fetchLogsFromReceipts GetBlockReceipts from to chain =
     Some (Inr (filter (spec_retained chain)
                  (concat (map (spec_blockLogs GetBlockReceipts) (spec_blocks from to)))),
           map Uint64ToHexQty (spec_blocks from to))"
proof -
  have "(\<lambda>l. matchesTopicFilter l chain) = spec_retained chain"
    by (rule ext) (rule matchesTopicFilter_spec)
  then show ?thesis
    using receiptsLoop_result [OF nw ok, of chain "[]" "[]"]
    by (simp add: fetchLogsFromReceipts_def)
qed

lemma receiptsLoop_never_returns:
  assumes "receiptsLoop GetBlockReceipts chain to blockNum allLogs calls = Some y"
  shows "to = - 1 \<longrightarrow> (\<forall>s. \<exists>rs. GetBlockReceipts s = Inr rs) \<longrightarrow> False"
proof (rule receiptsLoop.raw_induct
    [where P = "\<lambda>G chain to blockNum allLogs calls y. to = - 1 \<longrightarrow> (\<forall>s. \<exists>rs. G s = Inr rs) \<longrightarrow> False",
     OF _ assms])
  fix loop :: "(string \<Rightarrow> go_error + Receipt list) \<Rightarrow> chainState \<Rightarrow> u64 \<Rightarrow> u64 \<Rightarrow> Log list \<Rightarrow> string list
     \<Rightarrow> ((go_error + Log list) \<times> string list) option"
    and G chain to blockNum allLogs calls y
  assume ih: "\<And>G chain to blockNum allLogs calls y.
      loop G chain to blockNum allLogs calls = Some y \<Longrightarrow>
      to = - 1 \<longrightarrow> (\<forall>s. \<exists>rs. G s = Inr rs) \<longrightarrow> False"
    and step: "(if blockNum \<le> to then
        let s_blockNum = Uint64ToHexQty blockNum in
        case G s_blockNum of
          Inl err \<Rightarrow> Some (Inl (ReceiptsFailed blockNum err), calls @ [s_blockNum])
        | Inr receipts \<Rightarrow>
            loop G chain to (blockNum + 1)
              (receiptLogs chain receipts allLogs) (calls @ [s_blockNum])
      else Some (Inr allLogs, calls)) = Some y"
  show "to = - 1 \<longrightarrow> (\<forall>s. \<exists>rs. G s = Inr rs) \<longrightarrow> False"
  proof (intro impI)
    assume to: "to = - 1" and ok: "\<forall>s. \<exists>rs. G s = Inr rs"
    from ok obtain rs where rs: "G (Uint64ToHexQty blockNum) = Inr rs" by blast
    from step have "loop G chain to (blockNum + 1) (receiptLogs chain rs allLogs)
        (calls @ [Uint64ToHexQty blockNum]) = Some y"
      using to rs by (simp add: Let_def)
    from ih [OF this] to ok show False by blast
  qed
qed

text \<open>
  C8, as the claim states it for every range, fails for a range that ends at the block
  \<open>2^64 - 1\<close>: \<open>blockNum++\<close> wraps around to 0, the test \<open>blockNum <= to\<close> never fails and
  the function does not return.
\<close>

theorem fetchLogsFromReceipts_top_block_diverges:
  "fetchLogsFromReceipts exampleGetBlockReceipts 18446744073709551615 18446744073709551615
     exampleTopicChain = None"
proof (cases "fetchLogsFromReceipts exampleGetBlockReceipts 18446744073709551615 18446744073709551615
     exampleTopicChain")
  case None
  then show ?thesis .
next
  case (Some y)
  have "(18446744073709551615 :: u64) = - 1" by simp
  moreover have "\<forall>s. \<exists>rs. exampleGetBlockReceipts s = Inr rs"
    by (simp add: exampleGetBlockReceipts_def)
  ultimately have False
    using receiptsLoop_never_returns [OF Some [unfolded fetchLogsFromReceipts_def]] by blast
  then show ?thesis ..
qed

lemma hex1: "Uint64ToHexQty 1 = ''0x1''"
  by (simp add: Uint64ToHexQty_def FormatUint16_def formatHex.simps hexDigit_def)

lemma hex2: "Uint64ToHexQty 2 = ''0x2''"
  by (simp add: Uint64ToHexQty_def FormatUint16_def formatHex.simps hexDigit_def)

lemma fetchLogsFromReceipts_example:
  "fetchLogsFromReceipts exampleGetBlockReceipts 1 2 exampleTopicChain =
     Some (Inr [exampleLogA], [''0x1'', ''0x2''])"
  by (simp add: fetchLogsFromReceipts_def receiptsLoop.simps hex1 hex2 exampleGetBlockReceipts_def
     matchesTopicFilter_def exampleTopicChain_def exampleChain_def exampleOptions_def
     exampleLogA_def exampleLogB_def Let_def)

theorem fetchLogsFromReceipts_retains_witness:
  "unat (2 :: u64) + 1 < 2 ^ 64 \<and>
   (\<forall>b. \<exists>rs. exampleGetBlockReceipts (Uint64ToHexQty b) = Inr rs) \<and>
   fetchLogsFromReceipts exampleGetBlockReceipts 1 2 exampleTopicChain =
     Some (Inr [exampleLogA], [''0x1'', ''0x2'']) \<and>
   filter (spec_retained exampleTopicChain)
     (concat (map (spec_blockLogs exampleGetBlockReceipts) (spec_blocks 1 2))) = [exampleLogA] \<and>
   map Uint64ToHexQty (spec_blocks 1 2) = [''0x1'', ''0x2'']"
proof -
  have h1: "unat (2 :: u64) + 1 < 2 ^ 64" by simp
  have h2: "\<forall>b. \<exists>rs. exampleGetBlockReceipts (Uint64ToHexQty b) = Inr rs"
    by (simp add: exampleGetBlockReceipts_def)
  then have h2': "\<forall>b. 1 \<le> b \<and> b \<le> 2 \<longrightarrow> (\<exists>rs. exampleGetBlockReceipts (Uint64ToHexQty b) = Inr rs)"
    by blast
  show ?thesis
    using fetchLogsFromReceipts_retains [OF h1 h2', of exampleTopicChain] h2
    by (simp add: fetchLogsFromReceipts_example)
qed

subsection \<open>The commit loop at height 0\<close>

lemma retriedGetBlock_ok:
  assumes "1 \<le> MaxAttempts config" and "GetBlock s = Inr block"
  shows "retriedGetBlock env config GetBlock s = Inr (None, block)"
proof -
  let ?env = "env\<lparr>fnResult := (\<lambda>k. case GetBlock s of Inl e \<Rightarrow> Some e | Inr b \<Rightarrow> None)\<rparr>"
  have "retryLoop ?env config 0 (InitialBackoff config) None [] = (Return None, [Call 0])"
    using assms by (subst retryLoop.simps) simp
  then have "RetryWithBackoff ?env config = (Inr None, [Call 0])"
    by (simp add: RetryWithBackoff_def)
  then show ?thesis using assms(2) by (simp add: retriedGetBlock_def)
qed

lemma commitLoop_next_zero:
  assumes "arb_next st = 0" and "arb_window st 0 = Some end"
    and "RetryConfig (opts (arb_chain st)) = Some config" and "1 \<le> MaxAttempts config"
    and "GetBlock (Uint64ToHexQty 0) = Inr block"
  shows "commitLoop env GetBlock rpcDone ctxDone st = (Broke, st)"
proof -
  have "retriedGetBlock env config GetBlock (Uint64ToHexQty 0) = Inr (None, block)"
    using assms(4,5) by (rule retriedGetBlock_ok)
  then have "commitStep env GetBlock rpcDone ctxDone st = Stop Broke st"
    using assms(1,2,3) by (simp add: commitStep_def)
  then show ?thesis by (subst commitLoop.simps) simp
qed

text \<open>
  C7, amended.  In the arbiter's commit loop, whenever the next window to commit starts
  at \<open>next = 0\<close> and its header is fetched (the retry configuration allowing at least one
  attempt), the parent-hash check is skipped and the loop is left by \<open>break\<close> with the
  window not committed: no log is sent, the cursor and the window-hash store are as
  before, and the window stays pending in \<open>window\<close>.
\<close>

theorem commitLoop_genesis_not_committed:
  assumes "arb_next st = 0" and "arb_window st 0 = Some end"
    and "RetryConfig (opts (arb_chain st)) = Some config" and "1 \<le> MaxAttempts config"
    and "GetBlock (Uint64ToHexQty 0) = Inr block"
  shows "case commitLoop env GetBlock rpcDone ctxDone st of
           (ex, st') \<Rightarrow>
             ex = Broke \<and> arb_logsCh st' = arb_logsCh st \<and>
             cursor (arb_chain st') = cursor (arb_chain st) \<and>
             storedWindowHash (arb_chain st') = storedWindowHash (arb_chain st) \<and>
             windowOrder (arb_chain st') = windowOrder (arb_chain st) \<and>
             arb_window st' 0 = Some end \<and> arb_next st' = 0 \<and> st' = st"
  using commitLoop_next_zero [where GetBlock = GetBlock, OF assms] assms(1,2) by simp

theorem commitLoop_genesis_not_committed_witness:
  "arb_next exampleGenesisArbiter = 0 \<and> arb_window exampleGenesisArbiter 0 = Some 9 \<and>
   RetryConfig (opts (arb_chain exampleGenesisArbiter)) = Some DefaultRetryConfig \<and>
   1 \<le> MaxAttempts DefaultRetryConfig \<and>
   exampleGetBlock50 (Uint64ToHexQty 0) =
     Inr \<lparr>Number = ''0x0'', Hash = ''x'', ParentHash = ''h50'', Timestamp = []\<rparr> \<and>
   commitLoop exampleRetryEnv exampleGetBlock50 (\<lambda>k. False) (\<lambda>k. False) exampleGenesisArbiter =
     (Broke, exampleGenesisArbiter)"
proof -
  have h1: "arb_next exampleGenesisArbiter = 0"
    and h2: "arb_window exampleGenesisArbiter 0 = Some 9"
    and h3: "RetryConfig (opts (arb_chain exampleGenesisArbiter)) = Some DefaultRetryConfig"
    by (simp_all add: exampleGenesisArbiter_def exampleChain_def exampleOptions_def)
  have h4: "1 \<le> MaxAttempts DefaultRetryConfig" by (simp add: DefaultRetryConfig_def)
  have h5: "exampleGetBlock50 (Uint64ToHexQty 0) =
     Inr \<lparr>Number = ''0x0'', Hash = ''x'', ParentHash = ''h50'', Timestamp = []\<rparr>"
    by (simp add: exampleGetBlock50_def Uint64ToHexQty_def)
  from commitLoop_genesis_not_committed [where GetBlock = exampleGetBlock50, OF h1 h2 h3 h4 h5,
      of exampleRetryEnv "\<lambda>k. False" "\<lambda>k. False"]
  have "commitLoop exampleRetryEnv exampleGetBlock50 (\<lambda>k. False) (\<lambda>k. False) exampleGenesisArbiter =
     (Broke, exampleGenesisArbiter)"
    by (cases "commitLoop exampleRetryEnv exampleGetBlock50 (\<lambda>k. False) (\<lambda>k. False) exampleGenesisArbiter") simp
  with h1 h2 h3 h4 h5 show ?thesis by simp
qed

text \<open>
  C7, as the claim states it, fails: with \<open>next = 0\<close> and the window \<open>[0, 9]\<close> fetched
  with one log, the commit loop sends no log, leaves the cursor where it was and stores
  no hash for the block 9.
\<close>

theorem commitLoop_genesis_window_left_pending:
  "arb_next exampleGenesisArbiter = 0 \<and>
   arb_window exampleGenesisArbiter (arb_next exampleGenesisArbiter) = Some 9 \<and>
   arb_windowLogs exampleGenesisArbiter (arb_next exampleGenesisArbiter) = Some [exampleLogA] \<and>
   arb_logsCh (snd (commitLoop exampleRetryEnv exampleGetBlock50 (\<lambda>k. False) (\<lambda>k. False)
      exampleGenesisArbiter)) = [] \<and>
   cursor (arb_chain (snd (commitLoop exampleRetryEnv exampleGetBlock50 (\<lambda>k. False) (\<lambda>k. False)
      exampleGenesisArbiter))) \<noteq> 9 \<and>
   storedWindowHash (arb_chain (snd (commitLoop exampleRetryEnv exampleGetBlock50 (\<lambda>k. False)
      (\<lambda>k. False) exampleGenesisArbiter))) 9 = None"
proof -
  have h1: "arb_next exampleGenesisArbiter = 0"
    and h2: "arb_window exampleGenesisArbiter 0 = Some 9"
    and h3: "RetryConfig (opts (arb_chain exampleGenesisArbiter)) = Some DefaultRetryConfig"
    by (simp_all add: exampleGenesisArbiter_def exampleChain_def exampleOptions_def)
  have h4: "1 \<le> MaxAttempts DefaultRetryConfig" by (simp add: DefaultRetryConfig_def)
  have h5: "exampleGetBlock50 (Uint64ToHexQty 0) =
     Inr \<lparr>Number = ''0x0'', Hash = ''x'', ParentHash = ''h50'', Timestamp = []\<rparr>"
    by (simp add: exampleGetBlock50_def Uint64ToHexQty_def)
  have "commitLoop exampleRetryEnv exampleGetBlock50 (\<lambda>k. False) (\<lambda>k. False) exampleGenesisArbiter =
     (Broke, exampleGenesisArbiter)"
    by (rule commitLoop_next_zero [where GetBlock = exampleGetBlock50, OF h1 h2 h3 h4 h5])
  then show ?thesis
    by (simp add: exampleGenesisArbiter_def exampleChain_def)
qed

end
